theory Spec2Isabelle
  imports Complex_Main "HOL-Library.Monad_Syntax" "HOL-Library.AList" "HOL-Library.Sublist"
begin

section \<open>JavaScript values of a parsed YAML document\<close>

text \<open>
  The dashboard works on whatever \<open>js-yaml\<close> parsed: an untyped tree of mappings,
  sequences and scalars. The embedding keeps it untyped. A mapping is an association
  list in key order (JavaScript objects keep insertion order, and every key occurs once).
  \<open>JUndef\<close> is the value of a property that is not there. Numbers are the integers
  that a double holds exactly; strings are byte strings, and the case and white-space
  functions below act on the ASCII range only.

  Outside the model: a timestamp that the parser turns into a \<open>Date\<close>, a number with
  a fraction, and a mapping with a key that shadows a built-in member of objects
  (\<open>__proto__\<close>, \<open>toString\<close>, \<open>valueOf\<close>), which JavaScript does not treat as a
  plain property.

  A function of the source that can throw (reading a property of \<open>null\<close> or
  \<open>undefined\<close>, calling a method that the value does not have) returns an option:
  \<open>None\<close> stands for the \<open>TypeError\<close>.
\<close>

datatype jv =
    JUndef
  | JNull
  | JBool bool
  | JNum int
  | JStr string
  | JArr "jv list"
  | JObj "(string \<times> jv) list"

text \<open>\<open>!!v\<close>: the values that count as true in a condition.\<close>

fun truthy :: "jv \<Rightarrow> bool" where
  "truthy JUndef = False"
| "truthy JNull = False"
| "truthy (JBool b) = b"
| "truthy (JNum n) = (n \<noteq> 0)"
| "truthy (JStr s) = (s \<noteq> [])"
| "truthy (JArr xs) = True"
| "truthy (JObj kvs) = True"

text \<open>\<open>typeof v\<close>.\<close>

fun typeof :: "jv \<Rightarrow> string" where
  "typeof JUndef = ''undefined''"
| "typeof JNull = ''object''"
| "typeof (JBool b) = ''boolean''"
| "typeof (JNum n) = ''number''"
| "typeof (JStr s) = ''string''"
| "typeof (JArr xs) = ''object''"
| "typeof (JObj kvs) = ''object''"

text \<open>
  \<open>v.k\<close> and \<open>v[k]\<close> for the property names the program reads (none of them is an
  array index, \<open>length\<close> or a member of a built-in prototype): a \<open>TypeError\<close> on
  \<open>null\<close> and \<open>undefined\<close>, the stored value on a mapping that has the key,
  \<open>undefined\<close> everywhere else.
\<close>

fun get_prop :: "jv \<Rightarrow> string \<Rightarrow> jv option" where
  "get_prop JUndef k = None"
| "get_prop JNull k = None"
| "get_prop (JObj kvs) k = (case map_of kvs k of Some v \<Rightarrow> Some v | None \<Rightarrow> Some JUndef)"
| "get_prop v k = Some JUndef"

text \<open>\<open>v?.k\<close>: \<open>undefined\<close> instead of the \<open>TypeError\<close>.\<close>

definition get_prop_opt :: "jv \<Rightarrow> string \<Rightarrow> jv" where
  "get_prop_opt v k = (case get_prop v k of Some w \<Rightarrow> w | None \<Rightarrow> JUndef)"

text \<open>\<open>a || b\<close> and \<open>a ?? b\<close> on values.\<close>

definition js_or :: "jv \<Rightarrow> jv \<Rightarrow> jv" where
  "js_or a b = (if truthy a then a else b)"

definition nullish :: "jv \<Rightarrow> bool" where
  "nullish v = (v = JUndef \<or> v = JNull)"

definition js_coalesce :: "jv \<Rightarrow> jv \<Rightarrow> jv" where
  "js_coalesce a b = (if nullish a then b else a)"

section \<open>Strings\<close>

text \<open>\<open>toLowerCase\<close>, \<open>toUpperCase\<close>, \<open>trim\<close>, \<open>includes\<close>, \<open>join\<close>.\<close>

definition lower_char :: "char \<Rightarrow> char" where
  "lower_char c =
     (case map_of (zip ''ABCDEFGHIJKLMNOPQRSTUVWXYZ'' ''abcdefghijklmnopqrstuvwxyz'') c of
        Some l \<Rightarrow> l | None \<Rightarrow> c)"

definition upper_char :: "char \<Rightarrow> char" where
  "upper_char c =
     (case map_of (zip ''abcdefghijklmnopqrstuvwxyz'' ''ABCDEFGHIJKLMNOPQRSTUVWXYZ'') c of
        Some u \<Rightarrow> u | None \<Rightarrow> c)"

definition toLowerCase :: "string \<Rightarrow> string" where
  "toLowerCase s = map lower_char s"

definition toUpperCase :: "string \<Rightarrow> string" where
  "toUpperCase s = map upper_char s"

definition is_space :: "char \<Rightarrow> bool" where
  "is_space c = (c \<in> set [CHR 0x09, CHR 0x0A, CHR 0x0B, CHR 0x0C, CHR 0x0D, CHR '' ''])"

definition trim :: "string \<Rightarrow> string" where
  "trim s = rev (dropWhile is_space (rev (dropWhile is_space s)))"

fun str_includes :: "string \<Rightarrow> string \<Rightarrow> bool" where
  "str_includes [] q = (q = [])"
| "str_includes (c # cs) q = (prefix q (c # cs) \<or> str_includes cs q)"

fun join :: "string \<Rightarrow> string list \<Rightarrow> string" where
  "join sep [] = []"
| "join sep [x] = x"
| "join sep (x # y # ys) = x @ sep @ join sep (y # ys)"

text \<open>Decimal digits of a number, as \<open>String(n)\<close> prints an integer.\<close>

fun show_nat :: "nat \<Rightarrow> string" where
  "show_nat n =
     (if n < 10 then [''0123456789'' ! n] else show_nat (n div 10) @ [''0123456789'' ! (n mod 10)])"

definition show_int :: "int \<Rightarrow> string" where
  "show_int n = (if n < 0 then CHR ''-'' # show_nat (nat (- n)) else show_nat (nat n))"

text \<open>
  \<open>String(v)\<close>. A sequence prints its elements separated by commas, with nothing for
  \<open>null\<close> and \<open>undefined\<close> elements; a mapping prints as \<open>[object Object]\<close>.
\<close>

fun to_string :: "jv \<Rightarrow> string" where
  "to_string JUndef = ''undefined''"
| "to_string JNull = ''null''"
| "to_string (JBool b) = (if b then ''true'' else ''false'')"
| "to_string (JNum n) = show_int n"
| "to_string (JStr s) = s"
| "to_string (JArr xs) =
     join '','' (map (\<lambda>x. if x = JUndef \<or> x = JNull then [] else to_string x) xs)"
| "to_string (JObj kvs) = ''[object Object]''"

text \<open>\<open>xs.join(sep)\<close> on a sequence of values.\<close>

definition array_join :: "string \<Rightarrow> jv list \<Rightarrow> string" where
  "array_join sep xs = join sep (map (\<lambda>x. if nullish x then [] else to_string x) xs)"

text \<open>
  A method of sequences (\<open>filter\<close>, \<open>some\<close>, \<open>map\<close>) called on a value: any value
  but a sequence has no such method, and the call throws.
\<close>

fun as_array :: "jv \<Rightarrow> jv list option" where
  "as_array (JArr xs) = Some xs"
| "as_array v = None"

text \<open>\<open>v.toLowerCase()\<close>: only a string has the method.\<close>

fun lower_method :: "jv \<Rightarrow> string option" where
  "lower_method (JStr s) = Some (toLowerCase s)"
| "lower_method v = None"

section \<open>Shape validation\<close>

text \<open>
  \<open>validateYamlShape\<close> (utils/format.js). The root check returns at once; the three
  field checks all run, each adding its message. Past the root check the document is
  not \<open>null\<close>, so its properties are read without a throw.
\<close>

record validation =
  ok :: bool
  errors :: "string list"

definition validateYamlShape :: "jv \<Rightarrow> validation" where
  "validateYamlShape d =
     (if \<not> truthy d \<or> typeof d \<noteq> ''object''
      then \<lparr>ok = False, errors = [''YAML root must be an object.'']\<rparr>
      else
        let schema_version = get_prop_opt d ''schema_version'';
            counts = get_prop_opt d ''counts'';
            phases = get_prop_opt d ''phases'';
            errors1 = (if nullish schema_version then [''Missing schema_version.''] else []);
            errors2 = errors1 @
              (if \<not> truthy counts \<or> typeof counts \<noteq> ''object''
               then [''Missing counts object.''] else []);
            errors3 = errors2 @
              (if \<not> truthy phases \<or> typeof phases \<noteq> ''object''
               then [''Missing phases object.''] else [])
        in \<lparr>ok = (length errors3 = 0), errors = errors3\<rparr>)"

text \<open>
  The specification's words for a valid shape, to compare the validation with: an
  object with a \<open>schema_version\<close> that is not null and objects under \<open>counts\<close>
  and \<open>phases\<close>. A JavaScript object is a value whose \<open>typeof\<close> is \<open>object\<close>
  and that is not \<open>null\<close>, so a mapping or a sequence.
\<close>

fun is_object :: "jv \<Rightarrow> bool" where
  "is_object (JObj kvs) = True"
| "is_object (JArr xs) = True"
| "is_object v = False"

fun has_field :: "jv \<Rightarrow> string \<Rightarrow> (jv \<Rightarrow> bool) \<Rightarrow> bool" where
  "has_field (JObj kvs) k P = (case map_of kvs k of Some v \<Rightarrow> P v | None \<Rightarrow> False)"
| "has_field v k P = False"

definition shape_ok :: "jv \<Rightarrow> bool" where
  "shape_ok d = (is_object d \<and> has_field d ''schema_version'' (\<lambda>v. v \<noteq> JNull \<and> v \<noteq> JUndef)
     \<and> has_field d ''counts'' is_object \<and> has_field d ''phases'' is_object)"

section \<open>Constants\<close>

text \<open>config/constants.js.\<close>

definition PHASE_ORDER :: "string list" where
  "PHASE_ORDER = [''Inception'', ''Planning'', ''Development'', ''Stabilization'', ''Freeze'',
     ''Ratification-Ready'', ''Publication'', ''Ratified'', ''Cancelled'']"

definition APPROVAL_TYPES :: "string list" where
  "APPROVAL_TYPES = [''BoD Approval'', ''Approval'', ''ARC Review'']"

definition DEFAULT_SRC_LOCAL :: string where
  "DEFAULT_SRC_LOCAL = ''RVS_phase_rollup.yaml''"

definition DEFAULT_SRC_REMOTE :: string where
  "DEFAULT_SRC_REMOTE =
     ''https://github.com/riscv-admin/riscv-sde/releases/latest/download/RVS_phase_rollup.yaml''"

definition DEFAULT_doneStatuses :: "string list" where
  "DEFAULT_doneStatuses = [''done'', ''approved'', ''not required to freeze'',
     ''ar review not require'', ''ar review not required'', ''approval not required'',
     ''arc review not required'']"

definition DEFAULT_notStartedStatuses :: "string list" where
  "DEFAULT_notStartedStatuses = [''not started'', ''to do'', ''open'', ''backlog'']"

definition DEFAULT_STATUS_CONFIG :: jv where
  "DEFAULT_STATUS_CONFIG = JObj
     [(''doneStatuses'', JArr (map JStr DEFAULT_doneStatuses)),
      (''notStartedStatuses'', JArr (map JStr DEFAULT_notStartedStatuses))]"

text \<open>
  \<open>PHASE_ALIASES\<close>: a label that maps to \<open>null\<close> is a key with the value \<open>None\<close>.
\<close>

definition PHASE_ALIASES :: "(string \<times> string option) list" where
  "PHASE_ALIASES = [(''plan'', Some ''Planning''),
     (''ratification ready'', Some ''Ratification-Ready''),
     (''ratification-ready'', Some ''Ratification-Ready''),
     (''fast-track'', None), (''ecosystem'', None)]"

definition PHASE_LOOKUP :: "(string \<times> string) list" where
  "PHASE_LOOKUP = fold (\<lambda>phase acc. AList.update (toLowerCase phase) phase acc) PHASE_ORDER []"

section \<open>Classification of an issue\<close>

text \<open>
  \<open>issueIsaValue\<close> and \<open>issueTrackValue\<close> (utils/format.js). The inner read of
  \<open>value\<close> runs only when the outer property is truthy, so neither function throws.
\<close>

definition issueIsaValue :: "jv \<Rightarrow> string" where
  "issueIsaValue issue =
     (let isa = get_prop_opt issue ''isa_or_non_isa'';
          isaRaw = (if truthy isa then js_coalesce (get_prop_opt isa ''value'') JNull else isa)
      in if truthy isaRaw then toUpperCase (trim (to_string isaRaw)) else [])"

definition issueTrackValue :: "jv \<Rightarrow> string" where
  "issueTrackValue issue =
     (let ft = get_prop_opt issue ''is_fast_track'';
          ftRaw = (if truthy ft then js_coalesce (get_prop_opt ft ''value'') JNull else ft);
          v = (case ftRaw of JStr s \<Rightarrow> toLowerCase (trim s) | _ \<Rightarrow> [])
      in if v = ''yes'' then ''Fast-Track'' else if v = ''no'' then ''Regular'' else [])"

section \<open>Query matching and filter predicates\<close>

text \<open>
  utils/search.js. \<open>linked_hay\<close> is the \<open>forEach\<close> over \<open>linked_issues\<close>: the four
  strings each linked issue adds to the haystack. \<open>sub\<close> is \<open>JUndef\<close> when the caller
  passes two arguments.
\<close>

fun linked_hay :: "jv list \<Rightarrow> jv list option" where
  "linked_hay [] = Some []"
| "linked_hay (li # lis) = do {
     k \<leftarrow> get_prop li ''key'';
     s \<leftarrow> get_prop li ''summary'';
     r \<leftarrow> get_prop li ''relationship'';
     d \<leftarrow> get_prop li ''direction'';
     more \<leftarrow> linked_hay lis;
     Some ([js_or k (JStr []), js_or s (JStr []), js_or r (JStr []), js_or d (JStr [])] @ more)
   }"

definition matchesQuery :: "string \<Rightarrow> jv \<Rightarrow> jv \<Rightarrow> bool option" where
  "matchesQuery q issue sub =
     (if q = [] then Some True
      else do {
        k \<leftarrow> get_prop issue ''key'';
        s \<leftarrow> get_prop issue ''summary'';
        p \<leftarrow> get_prop issue ''phase'';
        let hay = [js_or k (JStr []), js_or s (JStr []), js_or p (JStr [])];
        linked \<leftarrow> get_prop issue ''linked_issues'';
        hay2 \<leftarrow> (case linked of
                   JArr lis \<Rightarrow> map_option (\<lambda>more. hay @ more) (linked_hay lis)
                 | _ \<Rightarrow> Some hay);
        hay3 \<leftarrow> (if truthy sub
                 then do {
                   sk \<leftarrow> get_prop sub ''key'';
                   ss \<leftarrow> get_prop sub ''summary'';
                   st \<leftarrow> get_prop sub ''status'';
                   ty \<leftarrow> get_prop sub ''type'';
                   Some (hay2 @ [js_or sk (JStr []), js_or ss (JStr []),
                                 js_or st (JStr []), js_or ty (JStr [])])
                 }
                 else Some hay2);
        Some (str_includes (toLowerCase (array_join '' '' hay3)) q)
      })"

text \<open>
  A filter is \<open>None\<close> (\<open>null\<close>) or a string; \<open>if(isaFilter)\<close> is false on the empty
  string too.
\<close>

definition filter_set :: "string option \<Rightarrow> bool" where
  "filter_set f = (case f of Some v \<Rightarrow> v \<noteq> [] | None \<Rightarrow> False)"

definition issueMatchesFilters :: "jv \<Rightarrow> string option \<Rightarrow> string option \<Rightarrow> bool" where
  "issueMatchesFilters issue isaFilter trackFilter =
     (if filter_set isaFilter \<and> Some (issueIsaValue issue) \<noteq> isaFilter then False
      else if filter_set trackFilter \<and> Some (issueTrackValue issue) \<noteq> trackFilter then False
      else True)"

section \<open>The filter engine\<close>

text \<open>
  \<open>xs.filter(f)\<close> and \<open>xs.some(f)\<close> with a callback that can throw: the first throw
  ends the call. \<open>some\<close> stops at the first element the callback accepts.
\<close>

fun array_filter :: "(jv \<Rightarrow> bool option) \<Rightarrow> jv list \<Rightarrow> jv list option" where
  "array_filter f [] = Some []"
| "array_filter f (x # xs) = do {
     keep \<leftarrow> f x;
     more \<leftarrow> array_filter f xs;
     Some (if keep then x # more else more)
   }"

fun array_some :: "(jv \<Rightarrow> bool option) \<Rightarrow> jv list \<Rightarrow> bool option" where
  "array_some f [] = Some False"
| "array_some f (x # xs) = do {
     hit \<leftarrow> f x;
     if hit then Some True else array_some f xs
   }"

text \<open>The callback that \<open>filteredData\<close> gives to \<open>filter\<close> (App.jsx).\<close>

definition issue_shown :: "string \<Rightarrow> string option \<Rightarrow> string option \<Rightarrow> jv \<Rightarrow> bool option" where
  "issue_shown q isaFilter trackFilter issue = do {
     matchesText \<leftarrow>
       (if q = [] then Some True
        else do {
          m \<leftarrow> matchesQuery q issue JUndef;
          if m then Some True
          else do {
            subtasks \<leftarrow> get_prop issue ''subtasks'';
            subs \<leftarrow> as_array (js_or subtasks (JArr []));
            array_some (\<lambda>st. matchesQuery q issue st) subs
          }
        });
     if \<not> matchesText then Some False
     else Some (issueMatchesFilters issue isaFilter trackFilter)
   }"

text \<open>
  The own properties of a value, as \<open>Object.assign\<close> copies them from a source: of the
  object that an association list stands for (the first pair of each key), of a sequence
  and of a string (their indices). \<open>object_assign\<close> sets them on the target in order.
\<close>

fun own_props :: "jv \<Rightarrow> (string \<times> jv) list" where
  "own_props (JObj kvs) = AList.clearjunk kvs"
| "own_props (JArr xs) = zip (map show_nat [0 ..< length xs]) xs"
| "own_props (JStr s) = zip (map show_nat [0 ..< length s]) (map (\<lambda>c. JStr [c]) s)"
| "own_props v = []"

definition object_assign :: "(string \<times> jv) list \<Rightarrow> (string \<times> jv) list \<Rightarrow> (string \<times> jv) list" where
  "object_assign target src = fold (\<lambda>(k, v) acc. AList.update k v acc) src target"

text \<open>
  The loop over \<open>PHASE_ORDER\<close> of \<open>filteredData\<close>: \<open>nextPhases\<close> gets one key per
  phase. \<open>phases\<close> is truthy there, so reading it does not throw; an entry that is
  truthy and not a sequence has no \<open>filter\<close> method.
\<close>

fun phase_loop ::
  "jv \<Rightarrow> (jv \<Rightarrow> bool option) \<Rightarrow> string list \<Rightarrow> (string \<times> jv) list \<Rightarrow> (string \<times> jv) list option" where
  "phase_loop phases f [] nextPhases = Some nextPhases"
| "phase_loop phases f (phase # rest) nextPhases = do {
     allIssues \<leftarrow> as_array (js_or (get_prop_opt phases phase) (JArr []));
     kept \<leftarrow> array_filter f allIssues;
     phase_loop phases f rest (AList.update phase (JArr kept) nextPhases)
   }"

text \<open>
  \<open>filteredData\<close> (App.jsx). \<open>d\<close> is the \<open>data\<close> state; the result is \<open>JNull\<close>
  while there is none.
\<close>

definition filteredData :: "jv \<Rightarrow> string \<Rightarrow> string option \<Rightarrow> string option \<Rightarrow> jv option" where
  "filteredData d searchQuery isaFilter trackFilter =
     (if \<not> truthy d then Some JNull
      else do {
        let q = toLowerCase (trim searchQuery);
        let phases = js_or (get_prop_opt d ''phases'') (JObj []);
        nextPhases \<leftarrow> phase_loop phases (issue_shown q isaFilter trackFilter) PHASE_ORDER [];
        Some (JObj (object_assign (object_assign [] (own_props d)) [(''phases'', JObj nextPhases)]))
      })"

text \<open>
  How the views read a snapshot (PhaseSection.jsx): the issues of a phase are
  \<open>d?.phases?.[phase] || []\<close>. \<open>phase_list_ok\<close> says that this is a sequence, as the
  data model has it; \<open>phase_issues\<close> is the list.
\<close>

definition phase_value :: "jv \<Rightarrow> string \<Rightarrow> jv" where
  "phase_value d phase = js_or (get_prop_opt (get_prop_opt d ''phases'') phase) (JArr [])"

definition phase_list_ok :: "jv \<Rightarrow> string \<Rightarrow> bool" where
  "phase_list_ok d phase = (case phase_value d phase of JArr xs \<Rightarrow> True | _ \<Rightarrow> False)"

definition phase_issues :: "jv \<Rightarrow> string \<Rightarrow> jv list" where
  "phase_issues d phase = (case phase_value d phase of JArr xs \<Rightarrow> xs | _ \<Rightarrow> [])"

text \<open>
  One round of the loop of \<open>filteredData\<close> on its own, and the rounds of a list of
  phases: what the proofs below compare \<open>phase_loop\<close> with.
\<close>

definition phase_entry :: "jv \<Rightarrow> (jv \<Rightarrow> bool option) \<Rightarrow> string \<Rightarrow> jv option" where
  "phase_entry phases f phase = do {
     allIssues \<leftarrow> as_array (js_or (get_prop_opt phases phase) (JArr []));
     kept \<leftarrow> array_filter f allIssues;
     Some (JArr kept)
   }"

fun entries :: "jv \<Rightarrow> (jv \<Rightarrow> bool option) \<Rightarrow> string list \<Rightarrow> jv list option" where
  "entries phases f [] = Some []"
| "entries phases f (p # ps) = do {
     e \<leftarrow> phase_entry phases f p;
     es \<leftarrow> entries phases f ps;
     Some (e # es)
   }"

definition next_phases :: "jv \<Rightarrow> (jv \<Rightarrow> bool option) \<Rightarrow> (string \<times> jv) list" where
  "next_phases phases f = map (\<lambda>p. (p, the (phase_entry phases f p))) PHASE_ORDER"

section \<open>Double-precision arithmetic\<close>

text \<open>
  The percentage of \<open>countByStatus\<close> is computed in doubles. \<open>fl64\<close> rounds a
  rational to the nearest double, ties to the even significand (53 bits, subnormals
  below \<open>2^-1022\<close>); \<open>ilog2\<close> is the binary exponent of a positive rational.
  Results beyond the largest double do not occur in this program. \<open>Math.round\<close>
  rounds to the nearest integer, ties upwards.
\<close>

fun bitlen :: "nat \<Rightarrow> nat" where
  "bitlen n = (if n = 0 then 0 else Suc (bitlen (n div 2)))"

definition ilog2 :: "rat \<Rightarrow> int" where
  "ilog2 x = (if 1 \<le> x then int (bitlen (nat \<lfloor>x\<rfloor>)) - 1
              else - int (bitlen (nat (\<lceil>1 / x\<rceil> - 1))))"

definition rne :: "rat \<Rightarrow> int" where
  "rne y = (let f = \<lfloor>y\<rfloor>; r = y - of_int f
            in if r < 1 / 2 then f else if 1 / 2 < r then f + 1 else if even f then f else f + 1)"

definition fl64 :: "rat \<Rightarrow> rat" where
  "fl64 x = (if x = 0 then 0
             else let k = min (52 - ilog2 \<bar>x\<bar>) 1074
                  in of_int (rne (x * power_int 2 k)) / power_int 2 k)"

definition Math_round :: "rat \<Rightarrow> int" where
  "Math_round y = \<lfloor>y + 1 / 2\<rfloor>"

section \<open>Status classification and counting\<close>

text \<open>
  utils/status.js. A configuration is any value (the merged JSON object of the
  application state); \<open>normalizeStatusConfig\<close> takes the defaults where a field is
  not a sequence.
\<close>

record status_config =
  doneStatuses :: "string list"
  notStartedStatuses :: "string list"

definition normalizeStatusConfig :: "jv \<Rightarrow> status_config" where
  "normalizeStatusConfig cfg =
     (let ds = (case get_prop_opt cfg ''doneStatuses'' of
                  JArr xs \<Rightarrow> xs | _ \<Rightarrow> map JStr DEFAULT_doneStatuses);
          ns = (case get_prop_opt cfg ''notStartedStatuses'' of
                  JArr xs \<Rightarrow> xs | _ \<Rightarrow> map JStr DEFAULT_notStartedStatuses)
      in \<lparr>doneStatuses = map (\<lambda>s. toLowerCase (to_string s)) ds,
          notStartedStatuses = map (\<lambda>s. toLowerCase (to_string s)) ns\<rparr>)"

definition statusClass :: "jv \<Rightarrow> jv \<Rightarrow> string option" where
  "statusClass status statusConfig =
     (if \<not> truthy status then Some ''status-neutral''
      else do {
        s \<leftarrow> lower_method status;
        let cfg = normalizeStatusConfig statusConfig;
        if s \<in> set (doneStatuses cfg) then Some ''status-done''
        else if s \<in> set (notStartedStatuses cfg) then Some ''status-not-started''
        else Some ''status-in-progress''
      })"

text \<open>
  The configured set of the specification, read off the configuration itself: the
  entries of the list the configuration holds under the key, each printed and
  lower-cased; the default list where the configuration is no object or holds no list
  under the key.
\<close>

fun configured_entries :: "jv \<Rightarrow> string \<Rightarrow> jv list option" where
  "configured_entries (JObj kvs) k = (case map_of kvs k of Some (JArr xs) \<Rightarrow> Some xs | _ \<Rightarrow> None)"
| "configured_entries v k = None"

definition configured_set :: "jv \<Rightarrow> string \<Rightarrow> string list \<Rightarrow> string set" where
  "configured_set cfg k dflt =
     (case configured_entries cfg k of
        Some xs \<Rightarrow> (\<lambda>x. toLowerCase (to_string x)) ` set xs
      | None \<Rightarrow> set dflt)"

text \<open>
  \<open>(opts?.k || []).map((s) => s.toLowerCase())\<close>: the lower-cased entries of an
  option of \<open>countByStatus\<close>. In the record of its result the field \<open>done\<close> of
  the source is \<open>n_done\<close>.
\<close>

definition opt_statuses :: "jv \<Rightarrow> string \<Rightarrow> string list option" where
  "opt_statuses opts k = do {
     xs \<leftarrow> as_array (js_or (get_prop_opt opts k) (JArr []));
     those (map lower_method xs)
   }"

record status_counts =
  n_done :: int
  total :: int
  notStarted :: int
  inProgress :: int
  pct :: int

text \<open>
  \<open>(item.status || "").toLowerCase()\<close>, the first line of both loops below, and the
  two tests of \<open>countByStatus\<close> on it.
\<close>

definition item_status :: "jv \<Rightarrow> string option" where
  "item_status item = do {
     st \<leftarrow> get_prop item ''status'';
     lower_method (js_or st (JStr []))
   }"

definition counts_done :: "string list \<Rightarrow> string \<Rightarrow> bool" where
  "counts_done ds status = (status = ''done'' \<or> status \<in> set ds)"

definition counts_notStarted :: "string list \<Rightarrow> string \<Rightarrow> bool" where
  "counts_notStarted ns status =
     (status \<in> set ns \<or> status \<in> set [''not started'', ''to do'', ''open'', ''backlog''])"

text \<open>The loop of \<open>countByStatus\<close>, with its two counters.\<close>

fun count_loop :: "string list \<Rightarrow> string list \<Rightarrow> jv list \<Rightarrow> int \<Rightarrow> int \<Rightarrow> (int \<times> int) option" where
  "count_loop ds ns [] dn nst = Some (dn, nst)"
| "count_loop ds ns (item # items) dn nst = do {
     status \<leftarrow> item_status item;
     if counts_done ds status then count_loop ds ns items (dn + 1) nst
     else if counts_notStarted ns status then count_loop ds ns items dn (nst + 1)
     else count_loop ds ns items dn nst
   }"

definition countByStatus :: "jv list \<Rightarrow> jv \<Rightarrow> status_counts option" where
  "countByStatus items opts = do {
     ds \<leftarrow> opt_statuses opts ''doneStatuses'';
     ns \<leftarrow> opt_statuses opts ''notStartedStatuses'';
     (dn, nst) \<leftarrow> count_loop ds ns items 0 0;
     let tot = int (length items);
     let inProg = max 0 (tot - dn - nst);
     let p = (if tot \<noteq> 0 then Math_round (fl64 (fl64 (of_int dn / of_int tot) * 100)) else 0);
     Some \<lparr>n_done = dn, total = tot, notStarted = nst, inProgress = inProg, pct = p\<rparr>
   }"

text \<open>The loop of \<open>firstPendingApproval\<close>; \<open>JNull\<close> when no item is pending.\<close>

fun pending_loop :: "string list \<Rightarrow> jv list \<Rightarrow> jv option" where
  "pending_loop doneSet [] = Some JNull"
| "pending_loop doneSet (item # items) = do {
     status \<leftarrow> item_status item;
     if status \<noteq> ''done'' \<and> status \<notin> set doneSet then Some item
     else pending_loop doneSet items
   }"

definition firstPendingApproval :: "jv list \<Rightarrow> string list \<Rightarrow> jv option" where
  "firstPendingApproval approvals ds = pending_loop (map toLowerCase ds) approvals"

section \<open>Phase of a subtask\<close>

text \<open>
  utils/phase.js. \<open>bracket_label\<close> is the group of the regular expression
  \<open>^\s*\[([^\]]+)\]\<close>: after leading white space an opening bracket, one or more
  characters other than the closing bracket, and the closing bracket.
  \<open>phaseFromSummary\<close> returns \<open>None\<close> for \<open>null\<close>; a label that names a member
  inherited by \<open>PHASE_LOOKUP\<close> yields that member in the source, which no phase
  value of a document is identical to, and \<open>None\<close> here.
\<close>

definition bracket_label :: "string \<Rightarrow> string option" where
  "bracket_label s =
     (case dropWhile is_space s of
        [] \<Rightarrow> None
      | c # rest \<Rightarrow>
          if c \<noteq> CHR ''['' then None
          else let body = takeWhile (\<lambda>x. x \<noteq> CHR '']'') rest
               in if body \<noteq> [] \<and> length body < length rest then Some body else None)"

definition phaseFromSummary :: "jv \<Rightarrow> string option" where
  "phaseFromSummary summary =
     (case bracket_label (to_string (js_or summary (JStr []))) of
        None \<Rightarrow> None
      | Some m \<Rightarrow>
          let label = toLowerCase (trim m)
          in (case map_of PHASE_ALIASES label of
                Some alias \<Rightarrow> alias
              | None \<Rightarrow> map_of PHASE_LOOKUP label))"

section \<open>The issue card\<close>

text \<open>
  components/IssueCard.jsx, the values it derives before rendering. In
  \<open>approvalsEl\<close> the link to the next approval is the subtask it is built from:
  \<open>None\<close> is no line at all, \<open>Some None\<close> the line that says \<open>None\<close>.
\<close>

definition isApproval :: "jv \<Rightarrow> bool option" where
  "isApproval sub = do {
     a \<leftarrow> get_prop sub ''is_approval'';
     ty \<leftarrow> get_prop sub ''type'';
     Some (a = JBool True \<or> js_or ty (JStr []) \<in> set (map JStr APPROVAL_TYPES))
   }"

definition approvalDoneStatuses :: "string list" where
  "approvalDoneStatuses = [''approved'', ''approval not required'', ''ar review not required'',
     ''arc review not required'']"

definition in_issue_phase :: "jv \<Rightarrow> jv \<Rightarrow> bool option" where
  "in_issue_phase issuePhase st = do {
     sm \<leftarrow> get_prop st ''summary'';
     Some (case phaseFromSummary sm of Some p \<Rightarrow> JStr p = issuePhase | None \<Rightarrow> False)
   }"

record issue_card =
  issuePhase :: jv
  phaseTasks :: "jv list"
  taskOnly :: "jv list"
  taskCounts :: status_counts
  approvalTasks :: "jv list"
  approvalCounts :: status_counts
  nextApproval :: jv

definition IssueCard :: "jv \<Rightarrow> issue_card option" where
  "IssueCard issue = do {
     ph \<leftarrow> get_prop issue ''phase'';
     let iph = js_or ph (JStr []);
     sub \<leftarrow> get_prop issue ''subtasks'';
     subtasks \<leftarrow> as_array (js_or sub (JArr []));
     pts \<leftarrow> array_filter (in_issue_phase iph) subtasks;
     tasks \<leftarrow> array_filter (\<lambda>st. map_option Not (isApproval st)) pts;
     tc \<leftarrow> countByStatus tasks JUndef;
     apps \<leftarrow> array_filter isApproval pts;
     ac \<leftarrow> countByStatus apps (JObj [(''doneStatuses'', JArr (map JStr approvalDoneStatuses))]);
     nxt \<leftarrow> firstPendingApproval apps approvalDoneStatuses;
     Some \<lparr>issuePhase = iph, phaseTasks = pts, taskOnly = tasks, taskCounts = tc,
           approvalTasks = apps, approvalCounts = ac, nextApproval = nxt\<rparr>
   }"

definition approvalsEl :: "issue_card \<Rightarrow> jv option option" where
  "approvalsEl c =
     (if total (approvalCounts c) > 0
      then Some (if truthy (nextApproval c) then Some (nextApproval c) else None)
      else None)"

section \<open>Well-formed inputs of the counting functions\<close>

text \<open>
  What the data model promises of a subtask and of the options of \<open>countByStatus\<close>:
  a subtask is not \<open>null\<close> and its status is a string or missing; an option is a
  sequence of strings or missing.
\<close>

definition status_readable :: "jv \<Rightarrow> bool" where
  "status_readable item =
     (case get_prop item ''status'' of
        None \<Rightarrow> False
      | Some st \<Rightarrow> (case js_or st (JStr []) of JStr s \<Rightarrow> True | _ \<Rightarrow> False))"

definition is_string :: "jv \<Rightarrow> bool" where
  "is_string v = (case v of JStr s \<Rightarrow> True | _ \<Rightarrow> False)"

definition option_list_ok :: "jv \<Rightarrow> string \<Rightarrow> bool" where
  "option_list_ok opts k =
     (case js_or (get_prop_opt opts k) (JArr []) of JArr xs \<Rightarrow> list_all is_string xs | _ \<Rightarrow> False)"

section \<open>A sample snapshot\<close>

text \<open>
  One phase with three issues, two of them about the UART; the second issue carries its
  ISA value with a trailing blank.
\<close>

definition sample_issue_uart :: jv where
  "sample_issue_uart = JObj [(''key'', JStr ''RVS-1''), (''summary'', JStr ''UART spec''),
     (''phase'', JStr ''Development''),
     (''isa_or_non_isa'', JObj [(''value'', JStr ''ISA'')]),
     (''is_fast_track'', JObj [(''value'', JStr ''Yes'')]),
     (''subtasks'', JArr [
        JObj [(''key'', JStr ''RVS-2''), (''summary'', JStr ''[Development] Architecture review''),
              (''status'', JStr ''Approved''), (''type'', JStr ''ARC Review'')],
        JObj [(''key'', JStr ''RVS-6''), (''summary'', JStr ''[Development] Write text''),
              (''status'', JStr ''In Review''), (''type'', JStr ''Task'')],
        JObj [(''key'', JStr ''RVS-5''), (''summary'', JStr ''[Development] Board approval''),
              (''status'', JStr ''To Do''), (''type'', JStr ''BoD Approval'')]])]"

definition sample_issue_spi :: jv where
  "sample_issue_spi = JObj [(''key'', JStr ''RVS-3''), (''summary'', JStr ''SPI''),
     (''phase'', JStr ''Development''),
     (''isa_or_non_isa'', JObj [(''value'', JStr ''ISA '')])]"

definition sample_issue_notes :: jv where
  "sample_issue_notes = JObj [(''key'', JStr ''RVS-4''), (''summary'', JStr ''Notes on the uart driver''),
     (''phase'', JStr ''Development''),
     (''isa_or_non_isa'', JObj [(''value'', JStr ''NON-ISA'')])]"

definition sample_snapshot :: jv where
  "sample_snapshot = JObj [(''schema_version'', JNum 1), (''generated_at'', JStr ''2025-01-01''),
     (''counts'', JObj [(''Development'', JNum 3)]),
     (''phases'', JObj [(''Development'', JArr [sample_issue_uart, sample_issue_spi, sample_issue_notes])])]"

definition sample_tasks :: "jv list" where
  "sample_tasks = [JObj [(''key'', JStr ''RVS-6''), (''status'', JStr ''Done'')],
     JObj [(''key'', JStr ''RVS-7''), (''status'', JStr ''To Do'')],
     JObj [(''key'', JStr ''RVS-8'')]]"

section \<open>The status of an approval\<close>

text \<open>
  The lower-cased status that \<open>firstPendingApproval\<close> reads from a subtask, and its
  test: pending is neither \<open>done\<close> nor a member of the done statuses of approvals.
\<close>

definition status_lower :: "jv \<Rightarrow> string" where
  "status_lower st =
     (case js_or (get_prop_opt st ''status'') (JStr []) of JStr s \<Rightarrow> toLowerCase s | _ \<Rightarrow> [])"

definition approval_pending :: "jv \<Rightarrow> bool" where
  "approval_pending st = (status_lower st \<noteq> ''done'' \<and> status_lower st \<notin> set approvalDoneStatuses)"

text \<open>An issue in the Freeze phase whose one approval has the status Done.\<close>

definition sample_approval_done :: jv where
  "sample_approval_done = JObj [(''key'', JStr ''RVS-9''), (''summary'', JStr ''[Freeze] ARC review''),
     (''status'', JStr ''Done''), (''type'', JStr ''ARC Review'')]"

definition sample_issue_freeze :: jv where
  "sample_issue_freeze = JObj [(''key'', JStr ''RVS-8''), (''summary'', JStr ''Timer extension''),
     (''phase'', JStr ''Freeze''), (''subtasks'', JArr [sample_approval_done])]"

definition overlap_config :: jv where
  "overlap_config = JObj [(''doneStatuses'', JArr [JStr ''closed'']),
     (''notStartedStatuses'', JArr [JStr ''closed''])]"

text \<open>A configuration with a done list of its own and no not-started list.\<close>

definition sample_config :: jv where
  "sample_config = JObj [(''doneStatuses'', JArr [JStr ''Closed'', JStr ''Merged''])]"

section \<open>Fetching the document\<close>

text \<open>
  \<open>fetchYaml\<close> (App.jsx) against the platform of one refresh cycle: \<open>new_URL\<close> is
  \<open>new URL(src, location)\<close> with the cache-busting parameter set, printed (it throws
  on a malformed address); \<open>fetch\<close> rejects when the network fails and otherwise gives
  a response, of which the code reads \<open>ok\<close>, \<open>status\<close> and the body (\<open>text()\<close>, which
  can reject too); \<open>yamlLoad\<close> is the \<open>load\<close> of js-yaml, which throws on a syntax
  error. An error is its message. \<open>ENV_YAML_URL\<close> is fixed when the application is
  built and is a parameter here.
\<close>

datatype js_error = Error string

fun message :: "js_error \<Rightarrow> string" where
  "message (Error m) = m"

record response =
  resp_status :: nat
  resp_body :: "js_error + string"

text \<open>\<open>resp.ok\<close>: the platform sets it exactly for a status from 200 to 299.\<close>

definition resp_ok :: "response \<Rightarrow> bool" where
  "resp_ok resp = (200 \<le> resp_status resp \<and> resp_status resp \<le> 299)"

record world =
  new_URL :: "string \<Rightarrow> js_error + string"
  fetch :: "string \<Rightarrow> js_error + response"
  yamlLoad :: "string \<Rightarrow> js_error + jv"
  JSON_stringify :: "jv \<Rightarrow> string"

text \<open>The body of the \<open>try\<close> for one source: what it returns, or what it throws.\<close>

definition attempt :: "world \<Rightarrow> string \<Rightarrow> js_error + jv" where
  "attempt w src =
     (case new_URL w src of
        Inl err \<Rightarrow> Inl err
      | Inr url \<Rightarrow>
          (case fetch w url of
             Inl err \<Rightarrow> Inl err
           | Inr resp \<Rightarrow>
               if \<not> resp_ok resp then Inl (Error (''HTTP '' @ show_nat (resp_status resp)))
               else (case resp_body resp of
                       Inl err \<Rightarrow> Inl err
                     | Inr body \<Rightarrow> yamlLoad w body)))"

fun fetch_loop :: "world \<Rightarrow> string list \<Rightarrow> js_error option \<Rightarrow> js_error + jv" where
  "fetch_loop w [] lastErr =
     Inl (case lastErr of Some err \<Rightarrow> err | None \<Rightarrow> Error ''Failed to load YAML'')"
| "fetch_loop w (src # srcs) lastErr =
     (case attempt w src of
        Inr d \<Rightarrow> Inr d
      | Inl err \<Rightarrow> fetch_loop w srcs (Some err))"

definition sources :: "string \<Rightarrow> string list" where
  "sources ENV_YAML_URL = filter (\<lambda>src. src \<noteq> []) [ENV_YAML_URL, DEFAULT_SRC_LOCAL, DEFAULT_SRC_REMOTE]"

definition fetchYaml :: "world \<Rightarrow> string \<Rightarrow> js_error + jv" where
  "fetchYaml w ENV_YAML_URL = fetch_loop w (sources ENV_YAML_URL) None"

section \<open>The refresh cycle\<close>

text \<open>
  The state of \<open>App\<close> that \<open>loadAndRender\<close> reads and writes: the state variables
  (\<open>data\<close>, \<open>error\<close>, \<open>metaBase\<close>, \<open>lastRefreshedAt\<close>, \<open>lastSuccessAt\<close>,
  \<open>lastGeneratedAt\<close>, \<open>toastMsg\<close>, each with the prefix \<open>st\<close> here) and the three
  references. A date is the value it is built from, the current time a number. The
  timer that clears the notification after three seconds is outside the model, and so
  is a refresh that starts before the one before it has ended.
\<close>

record app_state =
  st_data :: jv
  st_error :: string
  st_metaBase :: string
  st_lastRefreshedAt :: "nat option"
  st_lastSuccessAt :: "nat option"
  st_lastGeneratedAt :: jv
  st_toastMsg :: string
  lastDataRef :: jv
  lastGenRef :: jv
  lastGeneratedRef :: jv

definition initial_state :: app_state where
  "initial_state = \<lparr>st_data = JNull, st_error = [], st_metaBase = ''Loading...'',
     st_lastRefreshedAt = None, st_lastSuccessAt = None, st_lastGeneratedAt = JNull,
     st_toastMsg = [], lastDataRef = JNull, lastGenRef = JNull, lastGeneratedRef = JNull\<rparr>"

text \<open>
  \<open>a !== b\<close> between the key of an earlier document and the key of this one: two
  mappings or sequences from two parses are never the same object.
\<close>

fun strict_differs :: "jv \<Rightarrow> jv \<Rightarrow> bool" where
  "strict_differs (JObj a) b = True"
| "strict_differs (JArr a) b = True"
| "strict_differs a b = (a \<noteq> b)"

text \<open>
  The \<open>try\<close> block of \<open>loadAndRender\<close> up to the validation: the document of a
  successful refresh, or the error that the \<open>catch\<close> receives.
\<close>

definition refresh_outcome :: "world \<Rightarrow> string \<Rightarrow> js_error + jv" where
  "refresh_outcome w ENV_YAML_URL =
     (case fetchYaml w ENV_YAML_URL of
        Inl err \<Rightarrow> Inl err
      | Inr nextData \<Rightarrow>
          if \<not> truthy nextData then Inl (Error ''No data found.'')
          else let validation = validateYamlShape nextData
               in if \<not> ok validation
                  then Inl (Error (''Invalid YAML: '' @ join '' '' (errors validation)))
                  else Inr nextData)"

definition loadAndRender :: "world \<Rightarrow> string \<Rightarrow> nat \<Rightarrow> app_state \<Rightarrow> app_state" where
  "loadAndRender w ENV_YAML_URL now s0 =
     (let s = s0\<lparr>st_error := []\<rparr>
      in case refresh_outcome w ENV_YAML_URL of
           Inr nextData \<Rightarrow>
             let generated_at = get_prop_opt nextData ''generated_at'';
                 generatedAt = (if truthy generated_at then generated_at else JNull);
                 genKey = js_or generated_at
                   (JStr (JSON_stringify w (js_or (get_prop_opt nextData ''counts'') (JObj []))));
                 toast = (truthy (lastGenRef s) \<and> strict_differs (lastGenRef s) genKey)
             in s\<lparr>st_data := nextData, st_lastRefreshedAt := Some now, st_lastSuccessAt := Some now,
                  st_lastGeneratedAt := generatedAt, lastGeneratedRef := generatedAt,
                  st_metaBase := [], lastDataRef := nextData,
                  st_toastMsg := (if toast then ''YAML updated'' else st_toastMsg s),
                  lastGenRef := genKey\<rparr>
         | Inl err \<Rightarrow>
             (if truthy (lastDataRef s)
              then s\<lparr>st_error := ''Error loading YAML. Using last successful data. ('' @ message err @ '')'',
                     st_data := lastDataRef s, st_lastGeneratedAt := lastGeneratedRef s\<rparr>
              else s\<lparr>st_error := ''Error loading YAML: '' @ message err,
                     st_metaBase := ''Failed to load data.''\<rparr>)
             \<lparr>st_lastRefreshedAt := None\<rparr>)"

text \<open>
  A run of refresh cycles from a state, each with the platform and the time it meets,
  and the document of the last cycle of a run that succeeded.
\<close>

record cycle =
  cy_world :: world
  cy_now :: nat

definition run :: "string \<Rightarrow> cycle list \<Rightarrow> app_state \<Rightarrow> app_state" where
  "run ENV_YAML_URL cs s = fold (\<lambda>c. loadAndRender (cy_world c) ENV_YAML_URL (cy_now c)) cs s"

definition last_good :: "string \<Rightarrow> cycle list \<Rightarrow> jv option" where
  "last_good ENV_YAML_URL cs =
     fold (\<lambda>c g. case refresh_outcome (cy_world c) ENV_YAML_URL of Inr d \<Rightarrow> Some d | Inl err \<Rightarrow> g)
       cs None"

text \<open>
  What a run keeps true, with \<open>g\<close> the document of its last successful cycle: the
  reference holds that document, the displayed data is what the reference holds, and
  once a cycle has succeeded the header line has no failure text.
\<close>

definition cycle_inv :: "app_state \<Rightarrow> jv option \<Rightarrow> bool" where
  "cycle_inv s g = (lastDataRef s = (case g of Some d \<Rightarrow> d | None \<Rightarrow> JNull)
     \<and> st_data s = lastDataRef s
     \<and> (case g of Some d \<Rightarrow> truthy d \<and> st_metaBase s = [] | None \<Rightarrow> True))"

text \<open>
  Sample platforms: one that serves the sample snapshot from every source, one that is
  down, and one where the first source throws, the second answers 404 and the third
  serves the snapshot.
\<close>

definition world_up :: world where
  "world_up = \<lparr>new_URL = (\<lambda>src. Inr (src @ ''?_=1'')),
     fetch = (\<lambda>url. Inr \<lparr>resp_status = 200, resp_body = Inr ''snapshot''\<rparr>),
     yamlLoad = (\<lambda>body. if body = ''snapshot'' then Inr sample_snapshot else Inl (Error ''bad indentation'')),
     JSON_stringify = (\<lambda>v. ''{}'')\<rparr>"

definition world_down :: world where
  "world_down = world_up\<lparr>fetch := (\<lambda>url. Inl (Error ''Failed to fetch''))\<rparr>"

definition world_fallback :: world where
  "world_fallback = world_up\<lparr>fetch := (\<lambda>url.
     if url = ''https://example.org/rollup.yaml?_=1'' then Inl (Error ''Failed to fetch'')
     else if url = DEFAULT_SRC_LOCAL @ ''?_=1''
     then Inr \<lparr>resp_status = 404, resp_body = Inr ''Not Found''\<rparr>
     else Inr \<lparr>resp_status = 200, resp_body = Inr ''snapshot''\<rparr>)\<rparr>"

text \<open>
  A platform where the first source throws and the second, a mirror, answers with the
  status 203 and an older document.
\<close>

definition sample_mirror :: jv where
  "sample_mirror = JObj [(''schema_version'', JNum 1), (''generated_at'', JStr ''2024-12-01''),
     (''counts'', JObj []), (''phases'', JObj [])]"

definition world_mirror :: world where
  "world_mirror = world_up\<lparr>
     fetch := (\<lambda>url.
       if url = ''https://example.org/rollup.yaml?_=1'' then Inl (Error ''Failed to fetch'')
       else if url = DEFAULT_SRC_LOCAL @ ''?_=1''
       then Inr \<lparr>resp_status = 203, resp_body = Inr ''mirror''\<rparr>
       else Inr \<lparr>resp_status = 200, resp_body = Inr ''snapshot''\<rparr>),
     yamlLoad := (\<lambda>body. if body = ''snapshot'' then Inr sample_snapshot
       else if body = ''mirror'' then Inr sample_mirror else Inl (Error ''bad indentation''))\<rparr>"

section \<open>The filter engine on a store\<close>

text \<open>
  \<open>filteredData\<close> once more, with the objects it touches held in a store, so that
  its writes show: the snapshot lives at an address, \<open>nextPhases\<close>, the target of
  \<open>Object.assign\<close> and the literal with the new \<open>phases\<close> are allocated, and
  \<open>nextPhases[phase] = ...\<close> and \<open>Object.assign\<close> write to the object at an
  address. The result is the store, and \<open>None\<close> for a throw, \<open>Some None\<close> for
  \<open>null\<close> or the address of the filtered snapshot.
\<close>

type_synonym store = "jv list"

definition alloc :: "jv \<Rightarrow> store \<Rightarrow> nat \<times> store" where
  "alloc v st = (length st, st @ [v])"

definition set_props :: "nat \<Rightarrow> (string \<times> jv) list \<Rightarrow> store \<Rightarrow> store" where
  "set_props a src st =
     st[a := (case st ! a of JObj kvs \<Rightarrow> JObj (object_assign kvs src) | v \<Rightarrow> v)]"

fun phase_loop_in ::
  "jv \<Rightarrow> (jv \<Rightarrow> bool option) \<Rightarrow> string list \<Rightarrow> nat \<Rightarrow> store \<Rightarrow> store \<times> bool" where
  "phase_loop_in phases f [] np st = (st, True)"
| "phase_loop_in phases f (phase # rest) np st =
     (case as_array (js_or (get_prop_opt phases phase) (JArr [])) of
        None \<Rightarrow> (st, False)
      | Some allIssues \<Rightarrow>
          (case array_filter f allIssues of
             None \<Rightarrow> (st, False)
           | Some kept \<Rightarrow> phase_loop_in phases f rest np (set_props np [(phase, JArr kept)] st)))"

definition filteredData_in ::
  "store \<Rightarrow> nat option \<Rightarrow> string \<Rightarrow> string option \<Rightarrow> string option \<Rightarrow> store \<times> nat option option" where
  "filteredData_in st a searchQuery isaFilter trackFilter =
     (case a of
        None \<Rightarrow> (st, Some None)
      | Some ad \<Rightarrow>
          let d = st ! ad
          in if \<not> truthy d then (st, Some None)
             else
               let q = toLowerCase (trim searchQuery);
                   phases = js_or (get_prop_opt d ''phases'') (JObj []);
                   (np, st1) = alloc (JObj []) st;
                   (st2, returned) =
                     phase_loop_in phases (issue_shown q isaFilter trackFilter) PHASE_ORDER np st1
               in if \<not> returned then (st2, None)
                  else
                    let (target, st3) = alloc (JObj []) st2;
                        (lit, st4) = alloc (JObj [(''phases'', st3 ! np)]) st3;
                        st5 = set_props target (own_props (st4 ! ad)) st4;
                        st6 = set_props target (own_props (st5 ! lit)) st5
                    in (st6, Some (Some target)))"

section \<open>Theorems\<close>

lemma is_object_iff: "is_object v \<longleftrightarrow> truthy v \<and> typeof v = ''object''"
  by (cases v) auto

text \<open>
  C1. For every parsed document, the \<open>ok\<close> flag of the validation is set exactly
  when the document is an object that has a \<open>schema_version\<close> other than null, an
  object under \<open>counts\<close> and an object under \<open>phases\<close>. Object is meant as
  JavaScript means it: a sequence passes where a mapping does.
\<close>

theorem validate_ok_iff:
  "ok (validateYamlShape d) \<longleftrightarrow> shape_ok d"
proof (cases d)
  case (JObj kvs)
  show ?thesis
    unfolding JObj validateYamlShape_def shape_ok_def
    by (auto simp: Let_def nullish_def is_object_iff get_prop_opt_def split: option.splits)
next
  case (JArr xs)
  then show ?thesis
    by (simp add: validateYamlShape_def shape_ok_def Let_def nullish_def get_prop_opt_def)
qed (simp_all add: validateYamlShape_def shape_ok_def)

text \<open>A document that passes is a mapping: a sequence has no \<open>schema_version\<close>.\<close>

lemma valid_is_mapping: "ok (validateYamlShape d) \<Longrightarrow> \<exists>kvs. d = JObj kvs"
  by (cases d) (simp_all add: validateYamlShape_def get_prop_opt_def nullish_def Let_def)

text \<open>Under \<open>counts\<close> and \<open>phases\<close> a sequence passes.\<close>

lemma validate_accepts_sequences:
  "ok (validateYamlShape (JObj [(''schema_version'', JNum 1), (''counts'', JArr []), (''phases'', JArr [])]))"
  by (simp add: validateYamlShape_def get_prop_opt_def nullish_def)

theorem validate_ok_iff_witness:
  "shape_ok (JObj [(''schema_version'', JNum 1), (''counts'', JObj []), (''phases'', JObj [])])
   \<and> ok (validateYamlShape
          (JObj [(''schema_version'', JNum 1), (''counts'', JObj []), (''phases'', JObj [])]))"
  using validate_ok_iff [of "JObj [(''schema_version'', JNum 1), (''counts'', JObj []), (''phases'', JObj [])]"]
  by (simp add: shape_ok_def)

subsection \<open>The loop of the filter engine\<close>

lemma update_fresh: "k \<notin> fst ` set al \<Longrightarrow> AList.update k v al = al @ [(k, v)]"
  by (induction al) auto

lemma fold_update_distinct:
  "distinct (map fst kvs) \<Longrightarrow> fst ` set kvs \<inter> fst ` set acc = {} \<Longrightarrow>
   fold (\<lambda>(k, v) acc. AList.update k v acc) kvs acc = acc @ kvs"
proof (induction kvs arbitrary: acc)
  case Nil
  then show ?case by simp
next
  case (Cons kv kvs)
  obtain k v where kv: "kv = (k, v)" by (cases kv)
  from Cons.prems have fresh: "k \<notin> fst ` set acc" by (auto simp: kv)
  have "fold (\<lambda>(k, v) acc. AList.update k v acc) kvs (acc @ [(k, v)]) = (acc @ [(k, v)]) @ kvs"
    using Cons.prems by (intro Cons.IH) (auto simp: kv)
  then show ?case by (simp add: kv update_fresh[OF fresh])
qed

lemma object_assign_fresh: "distinct (map fst kvs) \<Longrightarrow> object_assign [] kvs = kvs"
  using fold_update_distinct [of kvs "[]"] by (simp add: object_assign_def)

lemma object_assign_single: "object_assign al [(k, v)] = AList.update k v al"
  by (simp add: object_assign_def)

lemma phase_loop_entries:
  "distinct ps \<Longrightarrow> set ps \<inter> fst ` set acc = {} \<Longrightarrow>
   phase_loop phases f ps acc = map_option (\<lambda>es. acc @ zip ps es) (entries phases f ps)"
proof (induction ps arbitrary: acc)
  case Nil
  then show ?case by simp
next
  case (Cons p ps)
  show ?case
  proof (cases "phase_entry phases f p")
    case None
    then show ?thesis by (auto simp: phase_entry_def split: Option.bind_splits)
  next
    case (Some e)
    then obtain xs kept where 1: "as_array (js_or (get_prop_opt phases p) (JArr [])) = Some xs"
        and 2: "array_filter f xs = Some kept" and 3: "e = JArr kept"
      by (auto simp: phase_entry_def split: Option.bind_splits)
    from Cons.prems have fresh: "p \<notin> fst ` set acc" by auto
    have "phase_loop phases f ps (acc @ [(p, e)]) = map_option (\<lambda>es. (acc @ [(p, e)]) @ zip ps es) (entries phases f ps)"
      using Cons.prems by (intro Cons.IH) auto
    then show ?thesis using Some 1 2 3
      by (cases "entries phases f ps") (simp_all add: update_fresh[OF fresh])
  qed
qed

lemma array_filter_idem: "array_filter f xs = Some ys \<Longrightarrow> array_filter f ys = Some ys"
proof (induction xs arbitrary: ys)
  case Nil
  then show ?case by simp
next
  case (Cons x xs)
  then show ?case by (auto split: Option.bind_splits if_splits)
qed

lemma array_filter_sound: "array_filter f xs = Some ys \<Longrightarrow> y \<in> set ys \<Longrightarrow> f y = Some True"
  by (induction xs arbitrary: ys) (auto split: Option.bind_splits if_splits)

lemma array_filter_all: "\<forall>x\<in>set xs. f x = Some True \<Longrightarrow> array_filter f xs = Some xs"
  by (induction xs) auto

lemma entries_SomeI:
  "\<forall>p\<in>set ps. phase_entry phases f p \<noteq> None \<Longrightarrow>
   entries phases f ps = Some (map (\<lambda>p. the (phase_entry phases f p)) ps)"
  by (induction ps) auto

lemma entries_SomeD:
  "entries phases f ps = Some es \<Longrightarrow>
   (\<forall>p\<in>set ps. phase_entry phases f p \<noteq> None) \<and> es = map (\<lambda>p. the (phase_entry phases f p)) ps"
  by (induction ps arbitrary: es) (auto split: Option.bind_splits)

lemma entries_map:
  "entries phases f ps = Some es \<longleftrightarrow>
   (\<forall>p\<in>set ps. phase_entry phases f p \<noteq> None) \<and> es = map (\<lambda>p. the (phase_entry phases f p)) ps"
  using entries_SomeI [of ps phases f] entries_SomeD [of phases f ps es] by auto

lemma distinct_PHASE_ORDER: "distinct PHASE_ORDER"
  by (simp add: PHASE_ORDER_def)

lemma filteredData_truthy:
  assumes "truthy d"
  shows "filteredData d sq i t = Some r \<longleftrightarrow>
    (\<forall>p\<in>set PHASE_ORDER.
        phase_entry (js_or (get_prop_opt d ''phases'') (JObj [])) (issue_shown (toLowerCase (trim sq)) i t) p \<noteq> None)
    \<and> r = JObj (AList.update ''phases''
          (JObj (next_phases (js_or (get_prop_opt d ''phases'') (JObj [])) (issue_shown (toLowerCase (trim sq)) i t)))
          (object_assign [] (own_props d)))"
proof -
  let ?ph = "js_or (get_prop_opt d ''phases'') (JObj [])"
  let ?f = "issue_shown (toLowerCase (trim sq)) i t"
  have loop: "phase_loop ?ph ?f PHASE_ORDER [] = map_option (\<lambda>es. zip PHASE_ORDER es) (entries ?ph ?f PHASE_ORDER)"
    using phase_loop_entries [OF distinct_PHASE_ORDER, of "[]" ?ph ?f] by simp
  show ?thesis
  proof (cases "entries ?ph ?f PHASE_ORDER")
    case None
    then have "\<not> (\<forall>p\<in>set PHASE_ORDER. phase_entry ?ph ?f p \<noteq> None)"
      using entries_map [of ?ph ?f PHASE_ORDER] by auto
    with None loop assms show ?thesis
      by (simp add: filteredData_def Let_def)
  next
    case (Some es)
    then have all: "\<forall>p\<in>set PHASE_ORDER. phase_entry ?ph ?f p \<noteq> None"
      and es: "es = map (\<lambda>p. the (phase_entry ?ph ?f p)) PHASE_ORDER"
      using entries_map [of ?ph ?f PHASE_ORDER es] by auto
    have "zip PHASE_ORDER es = next_phases ?ph ?f"
      unfolding es next_phases_def by (simp add: zip_map2 zip_same_conv_map)
    with Some loop assms all show ?thesis
      by (auto simp add: filteredData_def Let_def object_assign_single)
  qed
qed

subsection \<open>The filtered snapshot\<close>

lemma phase_entry_SomeD:
  "phase_entry phases f p = Some e \<Longrightarrow>
   \<exists>xs kept. as_array (js_or (get_prop_opt phases p) (JArr [])) = Some xs
      \<and> array_filter f xs = Some kept \<and> e = JArr kept"
  by (auto simp: phase_entry_def split: Option.bind_splits)

lemma js_or_truthy: "truthy a \<Longrightarrow> js_or a b = a"
  by (simp add: js_or_def)

lemma get_prop_opt_or_empty: "get_prop_opt (js_or v (JObj [])) p = get_prop_opt v p"
  by (cases v) (auto simp: js_or_def get_prop_opt_def)

lemma map_of_next_phases:
  "map_of (next_phases phases f) p =
     (if p \<in> set PHASE_ORDER then Some (the (phase_entry phases f p)) else None)"
proof -
  have "map_of (map (\<lambda>p. (p, g p)) ps) p = (if p \<in> set ps then Some (g p) else None)"
    for ps :: "string list" and g :: "string \<Rightarrow> jv"
    by (induction ps) auto
  then show ?thesis unfolding next_phases_def by simp
qed

lemma phases_of_result:
  "get_prop_opt (JObj (AList.update ''phases'' v al)) ''phases'' = v"
  by (simp add: get_prop_opt_def update_conv')

lemma phase_value_result:
  "phase_value (JObj (AList.update ''phases'' (JObj (next_phases phases f)) al)) p =
     (if p \<in> set PHASE_ORDER then js_or (the (phase_entry phases f p)) (JArr []) else JArr [])"
proof -
  have "get_prop_opt (JObj (next_phases phases f)) p =
      (if p \<in> set PHASE_ORDER then the (phase_entry phases f p) else JUndef)"
    by (simp add: get_prop_opt_def map_of_next_phases)
  then show ?thesis
    by (simp add: phase_value_def phases_of_result js_or_def)
qed

lemma issue_shown_all: "issue_shown [] None None x = Some True"
  by (simp add: issue_shown_def issueMatchesFilters_def filter_set_def)

lemma toLowerCase_Nil: "toLowerCase [] = []"
  by (simp add: toLowerCase_def)

lemma falsy_no_phases: "\<not> truthy d \<Longrightarrow> phase_value d p = JArr []"
  by (cases d) (auto simp: phase_value_def get_prop_opt_def js_or_def)

lemma phase_value_JNull: "phase_value JNull p = JArr []"
  by (simp add: falsy_no_phases)

text \<open>
  C4. With an empty query (nothing but white space) and no ISA or track filter, the
  filter engine returns, for every snapshot whose phase entries are sequences, a result
  in which every phase of the enumeration has exactly the issues it had, in their order.
\<close>

theorem empty_query_keeps_all:
  assumes empty: "trim sq = []"
    and lists: "\<forall>p\<in>set PHASE_ORDER. phase_list_ok d p"
  shows "\<exists>r. filteredData d sq None None = Some r
           \<and> (\<forall>p\<in>set PHASE_ORDER. phase_issues r p = phase_issues d p)"
proof (cases "truthy d")
  case False
  then have "filteredData d sq None None = Some JNull"
    by (simp add: filteredData_def)
  moreover have "phase_issues JNull p = phase_issues d p" for p
    using False by (simp add: phase_issues_def falsy_no_phases)
  ultimately show ?thesis by simp
next
  case True
  let ?ph = "js_or (get_prop_opt d ''phases'') (JObj [])"
  let ?f = "issue_shown [] None None"
  have entry: "phase_entry ?ph ?f p = Some (JArr (phase_issues d p))" if "p \<in> set PHASE_ORDER" for p
  proof -
    from lists that have "phase_list_ok d p" by blast
    then obtain xs where xs: "phase_value d p = JArr xs"
      by (auto simp: phase_list_ok_def split: jv.splits)
    then have "js_or (get_prop_opt ?ph p) (JArr []) = JArr xs"
      by (simp add: phase_value_def get_prop_opt_or_empty)
    moreover have "array_filter ?f xs = Some xs"
      by (rule array_filter_all) (simp add: issue_shown_all)
    ultimately show ?thesis using xs
      by (simp add: phase_entry_def phase_issues_def)
  qed
  let ?r = "JObj (AList.update ''phases'' (JObj (next_phases ?ph ?f)) (object_assign [] (own_props d)))"
  have "filteredData d sq None None = Some ?r"
    using filteredData_truthy [OF True, of sq None None ?r] entry
    by (simp add: empty toLowerCase_Nil)
  moreover have "phase_issues ?r p = phase_issues d p" if "p \<in> set PHASE_ORDER" for p
    using that entry [OF that]
    by (simp add: phase_issues_def phase_value_result js_or_def)
  ultimately show ?thesis by blast
qed

lemma distinct_result_keys:
  "distinct (map fst (AList.update k v (object_assign [] kvs)))"
proof -
  have "distinct (map fst acc) \<Longrightarrow> distinct (map fst (fold (\<lambda>(k, v) acc. AList.update k v acc) kvs acc))" for acc
    by (induction kvs arbitrary: acc) (auto simp: distinct_update)
  then show ?thesis
    by (simp add: object_assign_def distinct_update)
qed

text \<open>
  C7. Filtering is idempotent: whatever the snapshot, the query and the two filters,
  filtering a result of the filter engine again with the same query and filters returns
  that same result.
\<close>

theorem filter_idempotent:
  assumes "filteredData d sq i t = Some r"
  shows "filteredData r sq i t = Some r"
proof (cases "truthy d")
  case False
  with assms have "r = JNull" by (simp add: filteredData_def)
  then show ?thesis by (simp add: filteredData_def)
next
  case True
  let ?ph = "js_or (get_prop_opt d ''phases'') (JObj [])"
  let ?f = "issue_shown (toLowerCase (trim sq)) i t"
  let ?np = "next_phases ?ph ?f"
  let ?al = "AList.update ''phases'' (JObj ?np) (object_assign [] (own_props d))"
  from assms filteredData_truthy [OF True, of sq i t r]
  have all: "\<forall>p\<in>set PHASE_ORDER. phase_entry ?ph ?f p \<noteq> None" and r: "r = JObj ?al"
    by auto
  have ph2: "js_or (get_prop_opt r ''phases'') (JObj []) = JObj ?np"
    by (simp add: r phases_of_result js_or_def)
  have entry2: "phase_entry (JObj ?np) ?f p = phase_entry ?ph ?f p" if "p \<in> set PHASE_ORDER" for p
  proof -
    from all that obtain e where e: "phase_entry ?ph ?f p = Some e" by auto
    then obtain xs kept where kept: "array_filter ?f xs = Some kept" and k: "e = JArr kept"
      using phase_entry_SomeD by blast
    from kept have "array_filter ?f kept = Some kept" by (rule array_filter_idem)
    moreover have "get_prop_opt (JObj ?np) p = JArr kept"
      using that e k by (simp add: get_prop_opt_def map_of_next_phases)
    then have "js_or (get_prop_opt (JObj ?np) p) (JArr []) = JArr kept"
      by (simp add: js_or_truthy)
    ultimately have "phase_entry (JObj ?np) ?f p = Some (JArr kept)"
      by (simp add: phase_entry_def)
    with e k show ?thesis by simp
  qed
  have np2: "next_phases (JObj ?np) ?f = ?np"
    unfolding next_phases_def [of "JObj ?np"] using entry2
    by (simp add: next_phases_def [of ?ph])
  have dist: "distinct (map fst ?al)" by (rule distinct_result_keys)
  have own: "object_assign [] (own_props r) = ?al"
    by (simp add: r dist object_assign_fresh)
  have "AList.update ''phases'' (JObj ?np) ?al = ?al" by simp
  moreover have "truthy r" by (simp add: r)
  ultimately show ?thesis
    using filteredData_truthy [of r sq i t r] all entry2
    by (simp add: ph2 np2 own) (simp add: r)
qed

text \<open>
  The result is the snapshot with \<open>phases\<close> replaced: every other key has the value
  it had, and a key that was missing stays missing.
\<close>

lemma filter_frame_value:
  assumes "filteredData (JObj kvs) sq i t = Some r"
  shows "\<exists>kvs'. r = JObj kvs' \<and> (\<forall>k. k \<noteq> ''phases'' \<longrightarrow> map_of kvs' k = map_of kvs k)"
proof -
  have "truthy (JObj kvs)" by simp
  from assms filteredData_truthy [OF this, of sq i t r]
  obtain np where r: "r = JObj (AList.update ''phases'' np (object_assign [] (own_props (JObj kvs))))"
    by auto
  have "object_assign [] (AList.clearjunk kvs) = AList.clearjunk kvs"
    by (simp add: object_assign_fresh)
  then show ?thesis
    by (simp add: r update_conv' map_of_clearjunk)
qed

lemma isa_value_ISA:
  assumes "issueIsaValue issue = ''ISA''"
  shows "truthy (get_prop_opt (get_prop_opt issue ''isa_or_non_isa'') ''value'')
     \<and> toUpperCase (trim (to_string (get_prop_opt (get_prop_opt issue ''isa_or_non_isa'') ''value''))) = ''ISA''"
  using assms
  by (auto simp: issueIsaValue_def Let_def js_coalesce_def nullish_def split: if_splits)

text \<open>
  C6, amended. With the ISA filter set to \<open>ISA\<close>, every issue in every phase list of
  the filtered snapshot has an \<open>isa_or_non_isa.value\<close> whose string, trimmed and then
  upper-cased, is \<open>ISA\<close>.
\<close>

theorem isa_filter_sound:
  assumes "filteredData d sq (Some ''ISA'') t = Some r"
    and "issue \<in> set (phase_issues r p)"
  shows "toUpperCase (trim (to_string (get_prop_opt (get_prop_opt issue ''isa_or_non_isa'') ''value''))) = ''ISA''"
proof (cases "truthy d")
  case False
  with assms(1) have "r = JNull" by (simp add: filteredData_def)
  with assms(2) show ?thesis by (simp add: phase_issues_def phase_value_JNull)
next
  case True
  let ?ph = "js_or (get_prop_opt d ''phases'') (JObj [])"
  let ?f = "issue_shown (toLowerCase (trim sq)) (Some ''ISA'') t"
  from assms(1) filteredData_truthy [OF True, of sq "Some ''ISA''" t r]
  have all: "\<forall>p\<in>set PHASE_ORDER. phase_entry ?ph ?f p \<noteq> None"
    and r: "r = JObj (AList.update ''phases'' (JObj (next_phases ?ph ?f)) (object_assign [] (own_props d)))"
    by auto
  have p: "p \<in> set PHASE_ORDER"
  proof (rule ccontr)
    assume "p \<notin> set PHASE_ORDER"
    then have "phase_issues r p = []"
      by (simp add: r phase_issues_def phase_value_result)
    with assms(2) show False by simp
  qed
  with all obtain e where e: "phase_entry ?ph ?f p = Some e" by auto
  then obtain xs kept where kept: "array_filter ?f xs = Some kept" and k: "e = JArr kept"
    using phase_entry_SomeD by blast
  have "phase_value r p = JArr kept"
    by (simp add: r phase_value_result p e k js_or_truthy)
  with assms(2) have "issue \<in> set kept"
    by (simp add: phase_issues_def)
  with kept have "?f issue = Some True" by (rule array_filter_sound)
  then have "issueMatchesFilters issue (Some ''ISA'') t"
    by (auto simp: issue_shown_def split: Option.bind_splits if_splits)
  then have "issueIsaValue issue = ''ISA''"
    by (auto simp: issueMatchesFilters_def filter_set_def split: if_splits)
  then show ?thesis using isa_value_ISA by blast
qed

lemma sample_lists_ok: "\<forall>p\<in>set PHASE_ORDER. phase_list_ok sample_snapshot p"
  by (simp add: PHASE_ORDER_def phase_list_ok_def phase_value_def get_prop_opt_def js_or_def
      sample_snapshot_def)

lemma sample_development:
  "phase_issues sample_snapshot ''Development'' =
     [sample_issue_uart, sample_issue_spi, sample_issue_notes]"
  by (simp add: phase_issues_def phase_value_def get_prop_opt_def js_or_def sample_snapshot_def)

theorem empty_query_keeps_all_witness:
  "trim [] = [] \<and> list_all (phase_list_ok sample_snapshot) PHASE_ORDER
   \<and> (\<exists>r. filteredData sample_snapshot [] None None = Some r
        \<and> phase_issues r ''Development'' = [sample_issue_uart, sample_issue_spi, sample_issue_notes])"
proof -
  have t: "trim [] = []" by (simp add: trim_def)
  from empty_query_keeps_all [OF t sample_lists_ok]
  obtain r where r: "filteredData sample_snapshot [] None None = Some r"
    and all: "\<forall>p\<in>set PHASE_ORDER. phase_issues r p = phase_issues sample_snapshot p"
    by blast
  have "''Development'' \<in> set PHASE_ORDER" by (simp add: PHASE_ORDER_def)
  with all have "phase_issues r ''Development'' = phase_issues sample_snapshot ''Development''"
    by blast
  with r t sample_lists_ok show ?thesis
    by (simp add: sample_development list_all_iff)
qed

lemma sample_uart_returns: "filteredData sample_snapshot ''uart'' None None \<noteq> None"
  by code_simp

theorem filter_idempotent_witness:
  "\<exists>r. filteredData sample_snapshot ''uart'' None None = Some r
      \<and> filteredData r ''uart'' None None = Some r
      \<and> phase_issues r ''Development'' = [sample_issue_uart, sample_issue_notes]"
proof -
  from sample_uart_returns obtain r where r: "filteredData sample_snapshot ''uart'' None None = Some r"
    by auto
  have "phase_issues (the (filteredData sample_snapshot ''uart'' None None)) ''Development''
      = [sample_issue_uart, sample_issue_notes]"
    by code_simp
  with r filter_idempotent [OF r] show ?thesis by simp
qed

lemma sample_isa_result:
  "phase_issues (the (filteredData sample_snapshot [] (Some ''ISA'') None)) ''Development''
     = [sample_issue_uart, sample_issue_spi]
   \<and> filteredData sample_snapshot [] (Some ''ISA'') None \<noteq> None"
  by code_simp

theorem isa_filter_sound_witness:
  "\<exists>r. filteredData sample_snapshot [] (Some ''ISA'') None = Some r
      \<and> sample_issue_uart \<in> set (phase_issues r ''Development'')
      \<and> toUpperCase (trim (to_string
           (get_prop_opt (get_prop_opt sample_issue_uart ''isa_or_non_isa'') ''value''))) = ''ISA''"
proof -
  from sample_isa_result obtain r where r: "filteredData sample_snapshot [] (Some ''ISA'') None = Some r"
    by auto
  with sample_isa_result have m: "sample_issue_uart \<in> set (phase_issues r ''Development'')"
    by simp
  from isa_filter_sound [OF r m] r m show ?thesis by blast
qed

text \<open>
  C6 as the specification words it fails: the second issue of the sample passes the
  ISA filter, and its value in upper case is \<open>ISA\<close> followed by a blank.
\<close>

theorem isa_filter_untrimmed_counterexample:
  "\<exists>r. filteredData sample_snapshot [] (Some ''ISA'') None = Some r
      \<and> sample_issue_spi \<in> set (phase_issues r ''Development'')
      \<and> get_prop_opt (get_prop_opt sample_issue_spi ''isa_or_non_isa'') ''value'' = JStr ''ISA ''
      \<and> toUpperCase ''ISA '' \<noteq> ''ISA''"
proof -
  from sample_isa_result obtain r where r: "filteredData sample_snapshot [] (Some ''ISA'') None = Some r"
    by auto
  with sample_isa_result have "sample_issue_spi \<in> set (phase_issues r ''Development'')"
    by simp
  moreover have "get_prop_opt (get_prop_opt sample_issue_spi ''isa_or_non_isa'') ''value'' = JStr ''ISA ''"
    by (simp add: sample_issue_spi_def get_prop_opt_def)
  moreover have "toUpperCase ''ISA '' \<noteq> ''ISA''"
    by (simp add: toUpperCase_def)
  ultimately show ?thesis using r by blast
qed

subsection \<open>Rounding to a double keeps the percentage in range\<close>

lemma bitlen_le: "n < 2 ^ k \<Longrightarrow> bitlen n \<le> k"
proof (induction n arbitrary: k rule: bitlen.induct)
  case (1 n)
  show ?case
  proof (cases "n = 0")
    case True
    then show ?thesis by simp
  next
    case False
    with "1.prems" obtain j where k: "k = Suc j"
      by (cases k) auto
    from "1.prems" have "n div 2 < 2 ^ j" by (simp add: k)
    with "1.IH" [OF False] have "bitlen (n div 2) \<le> j" .
    with False show ?thesis by (simp add: k)
  qed
qed

lemma ilog2_le:
  assumes "0 < x" and "x < 2 ^ 53"
  shows "ilog2 x \<le> 52"
proof (cases "1 \<le> x")
  case True
  have "\<lfloor>x\<rfloor> < 2 ^ 53" using assms(2) by (simp add: floor_less_iff)
  moreover have "0 \<le> \<lfloor>x\<rfloor>" using True by simp
  ultimately have "nat \<lfloor>x\<rfloor> < 2 ^ 53" by (simp add: nat_less_iff)
  then have "bitlen (nat \<lfloor>x\<rfloor>) \<le> 53" by (rule bitlen_le)
  with True show ?thesis by (simp add: ilog2_def)
next
  case False
  then show ?thesis by (simp add: ilog2_def)
qed

lemma rne_le: "y \<le> of_int m \<Longrightarrow> rne y \<le> m"
proof -
  assume le: "y \<le> of_int m"
  then have f: "\<lfloor>y\<rfloor> \<le> m" by (simp add: floor_le_iff)
  show ?thesis
  proof (cases "y = of_int \<lfloor>y\<rfloor>")
    case True
    then have "y - of_int \<lfloor>y\<rfloor> = 0" by simp
    then show ?thesis using f by (simp add: rne_def Let_def)
  next
    case False
    have "\<lfloor>y\<rfloor> < m"
    proof (rule ccontr)
      assume "\<not> \<lfloor>y\<rfloor> < m"
      with f have "\<lfloor>y\<rfloor> = m" by simp
      then have "of_int m \<le> y" by (metis of_int_floor_le)
      with le have "y = of_int m" by simp
      with \<open>\<lfloor>y\<rfloor> = m\<close> False show False by simp
    qed
    then show ?thesis by (simp add: rne_def Let_def)
  qed
qed

lemma rne_ge: "of_int m \<le> y \<Longrightarrow> m \<le> rne y"
proof -
  assume "of_int m \<le> y"
  then have "m \<le> \<lfloor>y\<rfloor>" by (simp add: le_floor_iff)
  then show ?thesis by (simp add: rne_def Let_def)
qed

lemma fl64_bounds:
  assumes "0 \<le> x" and "x \<le> of_int c" and "c < 2 ^ 53"
  shows "0 \<le> fl64 x \<and> fl64 x \<le> of_int c"
proof (cases "x = 0")
  case True
  with assms show ?thesis by (simp add: fl64_def)
next
  case False
  with assms(1) have pos: "0 < x" by simp
  have "x < 2 ^ 53"
  proof -
    have "(of_int c :: rat) < of_int (2 ^ 53)" using assms(3) by (simp only: of_int_less_iff)
    with assms(2) show ?thesis by simp
  qed
  with pos have "ilog2 x \<le> 52" by (rule ilog2_le)
  then have k: "0 \<le> min (52 - ilog2 \<bar>x\<bar>) 1074" using pos by simp
  define k where "k = nat (min (52 - ilog2 \<bar>x\<bar>) 1074)"
  have pk: "power_int (2::rat) (min (52 - ilog2 \<bar>x\<bar>) 1074) = 2 ^ k"
    using k by (simp add: power_int_def k_def)
  have fl: "fl64 x = of_int (rne (x * 2 ^ k)) / 2 ^ k"
    using False by (simp add: fl64_def Let_def pk)
  have "x * 2 ^ k \<le> of_int (c * 2 ^ k)" using assms(2) by simp
  then have up: "rne (x * 2 ^ k) \<le> c * 2 ^ k" by (rule rne_le)
  have "of_int 0 \<le> x * 2 ^ k" using assms(1) by simp
  then have lo: "0 \<le> rne (x * 2 ^ k)" by (rule rne_ge)
  have "(of_int (rne (x * 2 ^ k)) :: rat) \<le> of_int (c * 2 ^ k)"
    using up by (simp only: of_int_le_iff)
  then have "(of_int (rne (x * 2 ^ k)) :: rat) / 2 ^ k \<le> of_int c"
    by (simp add: divide_le_eq)
  moreover have "(0::rat) \<le> of_int (rne (x * 2 ^ k)) / 2 ^ k"
    using lo by simp
  ultimately show ?thesis by (simp add: fl)
qed

lemma pct_bounds:
  assumes "0 \<le> dn" and "dn \<le> tot" and "0 < tot"
  shows "0 \<le> Math_round (fl64 (fl64 (of_int dn / of_int tot) * 100))
       \<and> Math_round (fl64 (fl64 (of_int dn / of_int tot) * 100)) \<le> 100"
proof -
  let ?q = "of_int dn / of_int tot :: rat"
  have "0 \<le> ?q" using assms by simp
  moreover have "?q \<le> of_int 1" using assms by (simp add: divide_le_eq)
  ultimately have q: "0 \<le> fl64 ?q \<and> fl64 ?q \<le> of_int 1"
    by (rule fl64_bounds) simp
  then have "0 \<le> fl64 ?q * 100" and "fl64 ?q * 100 \<le> of_int 100" by simp_all
  then have "0 \<le> fl64 (fl64 ?q * 100) \<and> fl64 (fl64 ?q * 100) \<le> of_int 100"
    by (rule fl64_bounds) simp
  then show ?thesis
    by (simp add: Math_round_def le_floor_iff floor_le_iff)
qed

lemma count_loop_bounds:
  "count_loop ds ns items dn nst = Some (dn', nst') \<Longrightarrow>
   dn \<le> dn' \<and> nst \<le> nst' \<and> dn' + nst' \<le> dn + nst + int (length items)"
proof (induction items arbitrary: dn nst)
  case Nil
  then show ?case by simp
next
  case (Cons item items)
  from Cons.prems obtain status where
    step: "(if counts_done ds status then count_loop ds ns items (dn + 1) nst
     else if counts_notStarted ns status then count_loop ds ns items dn (nst + 1)
     else count_loop ds ns items dn nst) = Some (dn', nst')"
    by (auto split: Option.bind_splits)
  consider (a) "count_loop ds ns items (dn + 1) nst = Some (dn', nst')"
    | (b) "count_loop ds ns items dn (nst + 1) = Some (dn', nst')"
    | (c) "count_loop ds ns items dn nst = Some (dn', nst')"
    using step by (auto split: if_splits)
  then show ?case
  proof cases
    case a
    from Cons.IH [OF a] show ?thesis by simp
  next
    case b
    from Cons.IH [OF b] show ?thesis by simp
  next
    case c
    from Cons.IH [OF c] show ?thesis by simp
  qed
qed

subsection \<open>Counting by status\<close>

lemma those_lower: "list_all is_string xs \<Longrightarrow> those (map lower_method xs) \<noteq> None"
  by (induction xs) (auto simp: is_string_def split: jv.splits)

lemma opt_statuses_total: "option_list_ok opts k \<Longrightarrow> opt_statuses opts k \<noteq> None"
  using those_lower by (auto simp: option_list_ok_def opt_statuses_def split: jv.splits)

lemma count_loop_total:
  "list_all status_readable items \<Longrightarrow> count_loop ds ns items dn nst \<noteq> None"
proof (induction items arbitrary: dn nst)
  case Nil
  then show ?case by simp
next
  case (Cons item items)
  from Cons.prems obtain st s where "get_prop item ''status'' = Some st" "js_or st (JStr []) = JStr s"
    by (auto simp: status_readable_def split: option.splits jv.splits)
  then have "item_status item = Some (toLowerCase s)"
    by (simp add: item_status_def)
  moreover from Cons have "count_loop ds ns items a b \<noteq> None" for a b by simp
  ultimately show ?case by simp
qed

text \<open>
  C9. For every list of subtasks and every options value: where the subtasks and the
  options are well formed \<open>countByStatus\<close> returns, and whenever it returns, the
  three counts add up to the total, the total is the length of the list, no count is
  negative, and the percentage lies between 0 and 100 and is 0 for the empty list.
\<close>

theorem countByStatus_invariant:
  "(list_all status_readable items \<and> option_list_ok opts ''doneStatuses''
      \<and> option_list_ok opts ''notStartedStatuses'' \<longrightarrow> countByStatus items opts \<noteq> None)
   \<and> (\<forall>c. countByStatus items opts = Some c \<longrightarrow>
        n_done c + notStarted c + inProgress c = total c
        \<and> total c = int (length items)
        \<and> 0 \<le> n_done c \<and> 0 \<le> notStarted c \<and> 0 \<le> inProgress c
        \<and> 0 \<le> pct c \<and> pct c \<le> 100
        \<and> (items = [] \<longrightarrow> pct c = 0))"
proof (intro conjI allI impI)
  assume "list_all status_readable items \<and> option_list_ok opts ''doneStatuses''
      \<and> option_list_ok opts ''notStartedStatuses''"
  then obtain ds ns where "opt_statuses opts ''doneStatuses'' = Some ds"
    "opt_statuses opts ''notStartedStatuses'' = Some ns"
    and "count_loop ds ns items 0 0 \<noteq> None"
    using opt_statuses_total count_loop_total by fastforce
  then show "countByStatus items opts \<noteq> None"
    by (auto simp: countByStatus_def Let_def)
next
  fix c
  assume "countByStatus items opts = Some c"
  then obtain ds ns dn nst where loop: "count_loop ds ns items 0 0 = Some (dn, nst)"
    and c: "c = \<lparr>n_done = dn, total = int (length items), notStarted = nst,
               inProgress = max 0 (int (length items) - dn - nst),
               pct = (if int (length items) \<noteq> 0
                      then Math_round (fl64 (fl64 (of_int dn / of_int (int (length items))) * 100))
                      else 0)\<rparr>"
    by (auto simp: countByStatus_def Let_def split: Option.bind_splits)
  from count_loop_bounds [OF loop]
  have b: "0 \<le> dn" "0 \<le> nst" "dn + nst \<le> int (length items)" by simp_all
  show "n_done c + notStarted c + inProgress c = total c" using b by (simp add: c)
  show "total c = int (length items)" by (simp add: c)
  show "0 \<le> n_done c" using b by (simp add: c)
  show "0 \<le> notStarted c" using b by (simp add: c)
  show "0 \<le> inProgress c" by (simp add: c)
  have p: "0 \<le> pct c \<and> pct c \<le> 100"
  proof (cases "items = []")
    case True
    then show ?thesis by (simp add: c)
  next
    case False
    then have "0 < int (length items)" by simp
    moreover have "dn \<le> int (length items)" using b by simp
    ultimately show ?thesis using pct_bounds [OF b(1), of "int (length items)"]
      by (simp add: c)
  qed
  then show "0 \<le> pct c" and "pct c \<le> 100" by simp_all
  show "pct c = 0" if "items = []" using that by (simp add: c)
qed

theorem countByStatus_invariant_witness:
  "list_all status_readable sample_tasks \<and> option_list_ok JUndef ''doneStatuses''
   \<and> option_list_ok JUndef ''notStartedStatuses''
   \<and> (\<exists>c. countByStatus sample_tasks JUndef = Some c
        \<and> n_done c + notStarted c + inProgress c = total c \<and> total c = 3
        \<and> 0 \<le> pct c \<and> pct c \<le> 100)"
proof -
  have h: "list_all status_readable sample_tasks \<and> option_list_ok JUndef ''doneStatuses''
     \<and> option_list_ok JUndef ''notStartedStatuses''"
    by (simp add: sample_tasks_def status_readable_def option_list_ok_def js_or_def get_prop_opt_def)
  with countByStatus_invariant [of sample_tasks JUndef]
  obtain c where "countByStatus sample_tasks JUndef = Some c" by auto
  with countByStatus_invariant [of sample_tasks JUndef] h show ?thesis
    by (auto simp: sample_tasks_def)
qed

subsection \<open>The status classifier\<close>

lemma statusClass_nonempty:
  "s \<noteq> [] \<Longrightarrow> statusClass (JStr s) cfg =
     Some (if toLowerCase s \<in> set (doneStatuses (normalizeStatusConfig cfg)) then ''status-done''
           else if toLowerCase s \<in> set (notStartedStatuses (normalizeStatusConfig cfg))
           then ''status-not-started'' else ''status-in-progress'')"
  by (simp add: statusClass_def Let_def)

lemma default_done_set:
  "doneStatuses (normalizeStatusConfig DEFAULT_STATUS_CONFIG) = DEFAULT_doneStatuses"
  by code_simp

lemma default_notStarted_set:
  "notStartedStatuses (normalizeStatusConfig DEFAULT_STATUS_CONFIG) = DEFAULT_notStartedStatuses"
  by code_simp

lemmas default_config_sets = default_done_set default_notStarted_set

lemma default_done_lower: "map toLowerCase DEFAULT_doneStatuses = DEFAULT_doneStatuses"
  by code_simp

lemma default_notStarted_lower:
  "map toLowerCase DEFAULT_notStartedStatuses = DEFAULT_notStartedStatuses"
  by code_simp

lemma normalize_entries:
  "(case get_prop_opt cfg k of JArr xs \<Rightarrow> xs | _ \<Rightarrow> map JStr dflt)
     = (case configured_entries cfg k of Some xs \<Rightarrow> xs | None \<Rightarrow> map JStr dflt)"
  by (cases cfg) (auto simp: get_prop_opt_def split: option.splits jv.splits)

lemma lower_entries:
  "map toLowerCase dflt = dflt \<Longrightarrow>
   set (map (\<lambda>s. toLowerCase (to_string s))
         (case configured_entries cfg k of Some xs \<Rightarrow> xs | None \<Rightarrow> map JStr dflt))
     = configured_set cfg k dflt"
proof -
  assume d: "map toLowerCase dflt = dflt"
  have "map (\<lambda>s. toLowerCase (to_string s)) (map JStr dflt) = map toLowerCase dflt"
    by (simp add: comp_def)
  with d show ?thesis
    by (cases "configured_entries cfg k") (simp_all add: configured_set_def del: map_map)
qed

lemma normalize_done:
  "set (doneStatuses (normalizeStatusConfig cfg)) = configured_set cfg ''doneStatuses'' DEFAULT_doneStatuses"
  unfolding normalizeStatusConfig_def Let_def normalize_entries
  using lower_entries [OF default_done_lower] by simp

lemma normalize_notStarted:
  "set (notStartedStatuses (normalizeStatusConfig cfg))
     = configured_set cfg ''notStartedStatuses'' DEFAULT_notStartedStatuses"
  unfolding normalizeStatusConfig_def Let_def normalize_entries
  using lower_entries [OF default_notStarted_lower] by simp

text \<open>
  C5, amended. For every status string that is not empty and every configuration, the
  classifier returns done exactly when the lower-cased status is in the configured done
  set (the entries of the configuration's list lower-cased, the defaults where the
  configuration has no such list), not-started exactly when it is in the configured
  not-started set and not in the done set, and in-progress exactly when it is in
  neither; the empty status and a missing status are neutral. Under the default
  configuration Done is done, To Do is not-started and Blocked is in-progress.
\<close>

theorem statusClass_classes:
  "(s \<noteq> [] \<longrightarrow>
      (statusClass (JStr s) cfg = Some ''status-done'' \<longleftrightarrow>
         toLowerCase s \<in> configured_set cfg ''doneStatuses'' DEFAULT_doneStatuses)
    \<and> (statusClass (JStr s) cfg = Some ''status-not-started'' \<longleftrightarrow>
         toLowerCase s \<notin> configured_set cfg ''doneStatuses'' DEFAULT_doneStatuses
         \<and> toLowerCase s \<in> configured_set cfg ''notStartedStatuses'' DEFAULT_notStartedStatuses)
    \<and> (statusClass (JStr s) cfg = Some ''status-in-progress'' \<longleftrightarrow>
         toLowerCase s \<notin> configured_set cfg ''doneStatuses'' DEFAULT_doneStatuses
         \<and> toLowerCase s \<notin> configured_set cfg ''notStartedStatuses'' DEFAULT_notStartedStatuses))
   \<and> statusClass (JStr []) cfg = Some ''status-neutral''
   \<and> statusClass JUndef cfg = Some ''status-neutral''
   \<and> statusClass JNull cfg = Some ''status-neutral''
   \<and> statusClass (JStr ''Done'') DEFAULT_STATUS_CONFIG = Some ''status-done''
   \<and> statusClass (JStr ''To Do'') DEFAULT_STATUS_CONFIG = Some ''status-not-started''
   \<and> statusClass (JStr ''Blocked'') DEFAULT_STATUS_CONFIG = Some ''status-in-progress''"
proof (intro conjI impI)
  assume s: "s \<noteq> []"
  show "statusClass (JStr s) cfg = Some ''status-done'' \<longleftrightarrow>
         toLowerCase s \<in> configured_set cfg ''doneStatuses'' DEFAULT_doneStatuses"
    by (simp add: statusClass_nonempty [OF s] normalize_done normalize_notStarted)
  show "statusClass (JStr s) cfg = Some ''status-not-started'' \<longleftrightarrow>
         toLowerCase s \<notin> configured_set cfg ''doneStatuses'' DEFAULT_doneStatuses
         \<and> toLowerCase s \<in> configured_set cfg ''notStartedStatuses'' DEFAULT_notStartedStatuses"
    by (simp add: statusClass_nonempty [OF s] normalize_done normalize_notStarted)
  show "statusClass (JStr s) cfg = Some ''status-in-progress'' \<longleftrightarrow>
         toLowerCase s \<notin> configured_set cfg ''doneStatuses'' DEFAULT_doneStatuses
         \<and> toLowerCase s \<notin> configured_set cfg ''notStartedStatuses'' DEFAULT_notStartedStatuses"
    by (simp add: statusClass_nonempty [OF s] normalize_done normalize_notStarted)
next
  show "statusClass (JStr []) cfg = Some ''status-neutral''"
    by (simp add: statusClass_def)
  show "statusClass JUndef cfg = Some ''status-neutral''"
    by (simp add: statusClass_def)
  show "statusClass JNull cfg = Some ''status-neutral''"
    by (simp add: statusClass_def)
next
  have l: "toLowerCase ''Done'' = ''done''" "toLowerCase ''To Do'' = ''to do''"
    "toLowerCase ''Blocked'' = ''blocked''" by (simp_all add: toLowerCase_def lower_char_def)
  show "statusClass (JStr ''Done'') DEFAULT_STATUS_CONFIG = Some ''status-done''"
    by (simp add: statusClass_nonempty default_config_sets l DEFAULT_doneStatuses_def)
  show "statusClass (JStr ''To Do'') DEFAULT_STATUS_CONFIG = Some ''status-not-started''"
    by (simp add: statusClass_nonempty default_config_sets l DEFAULT_doneStatuses_def
        DEFAULT_notStartedStatuses_def)
  show "statusClass (JStr ''Blocked'') DEFAULT_STATUS_CONFIG = Some ''status-in-progress''"
    by (simp add: statusClass_nonempty default_config_sets l DEFAULT_doneStatuses_def
        DEFAULT_notStartedStatuses_def)
qed

lemma sample_config_sets:
  "configured_set sample_config ''doneStatuses'' DEFAULT_doneStatuses = {''closed'', ''merged''}"
  "configured_set sample_config ''notStartedStatuses'' DEFAULT_notStartedStatuses
     = {''not started'', ''to do'', ''open'', ''backlog''}"
  by (simp_all add: configured_set_def sample_config_def toLowerCase_def lower_char_def
      DEFAULT_notStartedStatuses_def)

theorem statusClass_classes_witness:
  "''MERGED'' \<noteq> [] \<and> ''Open'' \<noteq> [] \<and> ''Done'' \<noteq> []
   \<and> configured_set sample_config ''doneStatuses'' DEFAULT_doneStatuses = {''closed'', ''merged''}
   \<and> configured_set sample_config ''notStartedStatuses'' DEFAULT_notStartedStatuses
       = {''not started'', ''to do'', ''open'', ''backlog''}
   \<and> statusClass (JStr ''MERGED'') sample_config = Some ''status-done''
   \<and> statusClass (JStr ''Open'') sample_config = Some ''status-not-started''
   \<and> statusClass (JStr ''Done'') sample_config = Some ''status-in-progress''
   \<and> statusClass JUndef sample_config = Some ''status-neutral''"
proof -
  have l: "toLowerCase ''MERGED'' = ''merged''" "toLowerCase ''Open'' = ''open''"
    "toLowerCase ''Done'' = ''done''" by (simp_all add: toLowerCase_def lower_char_def)
  from statusClass_classes [of "''MERGED''" sample_config]
    statusClass_classes [of "''Open''" sample_config]
    statusClass_classes [of "''Done''" sample_config]
  show ?thesis by (simp add: l sample_config_sets)
qed

text \<open>
  C5 as the specification words it fails twice: the empty status is in neither set and
  is classified neutral, not in-progress; and a status in both sets is classified done,
  not not-started.
\<close>

theorem statusClass_empty_counterexample:
  "statusClass (JStr []) DEFAULT_STATUS_CONFIG = Some ''status-neutral''
   \<and> statusClass (JStr []) DEFAULT_STATUS_CONFIG \<noteq> Some ''status-in-progress''
   \<and> toLowerCase [] \<notin> set (doneStatuses (normalizeStatusConfig DEFAULT_STATUS_CONFIG))
   \<and> toLowerCase [] \<notin> set (notStartedStatuses (normalizeStatusConfig DEFAULT_STATUS_CONFIG))
   \<and> toLowerCase [] \<notin> configured_set DEFAULT_STATUS_CONFIG ''doneStatuses'' DEFAULT_doneStatuses
   \<and> toLowerCase [] \<notin> configured_set DEFAULT_STATUS_CONFIG ''notStartedStatuses''
         DEFAULT_notStartedStatuses"
proof -
  have "toLowerCase [] \<notin> set (doneStatuses (normalizeStatusConfig DEFAULT_STATUS_CONFIG))"
    "toLowerCase [] \<notin> set (notStartedStatuses (normalizeStatusConfig DEFAULT_STATUS_CONFIG))"
    by (simp_all add: default_config_sets DEFAULT_doneStatuses_def
      DEFAULT_notStartedStatuses_def toLowerCase_def)
  then show ?thesis
    by (simp add: statusClass_def normalize_done [symmetric] normalize_notStarted [symmetric])
qed

lemma statusClass_overlap:
  "statusClass (JStr ''Closed'') overlap_config = Some ''status-done''
   \<and> toLowerCase ''Closed'' \<in> set (notStartedStatuses (normalizeStatusConfig overlap_config))"
  by (simp add: statusClass_def overlap_config_def normalizeStatusConfig_def get_prop_opt_def
      toLowerCase_def lower_char_def)

subsection \<open>The next approval of an issue card\<close>

lemma array_filter_eq: "array_filter f xs = Some ys \<Longrightarrow> ys = filter (\<lambda>x. f x = Some True) xs"
  by (induction xs arbitrary: ys) (auto split: Option.bind_splits if_splits)

lemma filter_filter_conj: "filter P (filter Q xs) = filter (\<lambda>x. Q x \<and> P x) xs"
  by (induction xs) auto

lemma lower_method_SomeD: "lower_method v = Some t \<Longrightarrow> \<exists>s. v = JStr s \<and> t = toLowerCase s"
  by (cases v) auto

lemma pending_loop_find:
  "pending_loop ds items = Some r \<Longrightarrow>
   r = (case List.find (\<lambda>st. status_lower st \<noteq> ''done'' \<and> status_lower st \<notin> set ds) items of
          Some st \<Rightarrow> st | None \<Rightarrow> JNull)"
proof (induction items)
  case Nil
  then show ?case by simp
next
  case (Cons item items)
  from Cons.prems obtain status where ist: "item_status item = Some status"
    and step: "(if status \<noteq> ''done'' \<and> status \<notin> set ds then Some item
                else pending_loop ds items) = Some r"
    by (auto split: Option.bind_splits)
  from ist obtain st where st: "get_prop item ''status'' = Some st"
    and lm: "lower_method (js_or st (JStr [])) = Some status"
    by (auto simp: item_status_def split: Option.bind_splits)
  from lm obtain s where "js_or st (JStr []) = JStr s" and "status = toLowerCase s"
    using lower_method_SomeD by blast
  with st have sl: "status_lower item = status"
    by (simp add: status_lower_def get_prop_opt_def)
  show ?case
  proof (cases "status \<noteq> ''done'' \<and> status \<notin> set ds")
    case True
    with step sl show ?thesis by simp
  next
    case False
    with step have "pending_loop ds items = Some r" by simp
    from Cons.IH [OF this] False sl show ?thesis by auto
  qed
qed

lemma approval_statuses_lower: "map toLowerCase approvalDoneStatuses = approvalDoneStatuses"
  by (simp add: approvalDoneStatuses_def toLowerCase_def lower_char_def)

lemma bracket_label_Nil: "bracket_label [] = None"
  by (simp add: bracket_label_def)

lemma in_issue_phase_truthy: "in_issue_phase iph st = Some True \<Longrightarrow> truthy st"
proof (cases st)
  case (JObj kvs)
  then show ?thesis by simp
qed (auto simp: in_issue_phase_def phaseFromSummary_def js_or_def bracket_label_Nil)

lemma find_in_set: "List.find P xs = Some x \<Longrightarrow> x \<in> set xs"
  by (induction xs) (auto split: if_splits)

lemma countByStatus_total: "countByStatus items opts = Some c \<Longrightarrow> total c = int (length items)"
  by (auto simp: countByStatus_def Let_def split: Option.bind_splits)

text \<open>
  C8, amended. For every issue whose card renders, the approval tasks are the subtasks
  of the issue's current phase that are of an approval type, in list order; the next
  approval is the first of them whose lower-cased status is neither \<open>done\<close> nor in
  the done statuses of approvals, and \<open>null\<close> when there is none; the card shows it
  (or \<open>None\<close>) when the issue has approval tasks at all.
\<close>

theorem next_approval_first_pending:
  assumes "IssueCard issue = Some c"
  shows "\<exists>subtasks. as_array (js_or (get_prop_opt issue ''subtasks'') (JArr [])) = Some subtasks
     \<and> approvalTasks c = filter (\<lambda>st. in_issue_phase (js_or (get_prop_opt issue ''phase'') (JStr [])) st = Some True
                                     \<and> isApproval st = Some True) subtasks
     \<and> nextApproval c = (case List.find approval_pending (approvalTasks c) of
                           Some st \<Rightarrow> st | None \<Rightarrow> JNull)
     \<and> approvalsEl c = (if approvalTasks c = [] then None
                        else Some (List.find approval_pending (approvalTasks c)))"
proof -
  let ?iph = "js_or (get_prop_opt issue ''phase'') (JStr [])"
  from assms obtain ph sub subtasks pts tasks tc apps ac nxt where
    ph: "get_prop issue ''phase'' = Some ph" and sub: "get_prop issue ''subtasks'' = Some sub"
    and subtasks: "as_array (js_or sub (JArr [])) = Some subtasks"
    and pts: "array_filter (in_issue_phase (js_or ph (JStr []))) subtasks = Some pts"
    and apps: "array_filter isApproval pts = Some apps"
    and ac: "countByStatus apps (JObj [(''doneStatuses'', JArr (map JStr approvalDoneStatuses))]) = Some ac"
    and nxt: "firstPendingApproval apps approvalDoneStatuses = Some nxt"
    and c: "approvalTasks c = apps" "approvalCounts c = ac" "nextApproval c = nxt"
    by (auto simp: IssueCard_def Let_def split: Option.bind_splits)
  have iph: "?iph = js_or ph (JStr [])" and gsub: "get_prop_opt issue ''subtasks'' = sub"
    using ph sub by (simp_all add: get_prop_opt_def)
  have pts_eq: "pts = filter (\<lambda>st. in_issue_phase ?iph st = Some True) subtasks"
    using array_filter_eq [OF pts] iph by simp
  have apps_eq: "apps = filter (\<lambda>st. in_issue_phase ?iph st = Some True \<and> isApproval st = Some True) subtasks"
    using array_filter_eq [OF apps] by (simp add: pts_eq filter_filter_conj)
  have ap: "approval_pending =
      (\<lambda>st. status_lower st \<noteq> ''done'' \<and> status_lower st \<notin> set approvalDoneStatuses)"
    by (simp add: approval_pending_def fun_eq_iff)
  have next_eq: "nxt = (case List.find approval_pending apps of Some st \<Rightarrow> st | None \<Rightarrow> JNull)"
    unfolding ap using pending_loop_find [of approvalDoneStatuses apps nxt] nxt
    by (simp add: firstPendingApproval_def approval_statuses_lower)
  have tot: "total ac = int (length apps)" using ac by (rule countByStatus_total)
  have shown: "approvalsEl c = (if apps = [] then None else Some (List.find approval_pending apps))"
  proof (cases "List.find approval_pending apps")
    case None
    with next_eq tot c show ?thesis by (simp add: approvalsEl_def)
  next
    case (Some st)
    then have "st \<in> set apps" by (rule find_in_set)
    then have "in_issue_phase ?iph st = Some True" by (simp add: apps_eq)
    then have "truthy st" by (rule in_issue_phase_truthy)
    moreover from \<open>st \<in> set apps\<close> have "apps \<noteq> []" by auto
    ultimately show ?thesis using Some next_eq tot c by (simp add: approvalsEl_def)
  qed
  from subtasks gsub apps_eq next_eq shown c show ?thesis by simp
qed

lemma sample_card_uart: "IssueCard sample_issue_uart \<noteq> None"
  by code_simp

theorem next_approval_first_pending_witness:
  "\<exists>c. IssueCard sample_issue_uart = Some c
      \<and> nextApproval c = (case List.find approval_pending (approvalTasks c) of
                            Some st \<Rightarrow> st | None \<Rightarrow> JNull)
      \<and> approvalsEl c = (if approvalTasks c = [] then None
                         else Some (List.find approval_pending (approvalTasks c)))"
proof -
  from sample_card_uart obtain c where c: "IssueCard sample_issue_uart = Some c" by auto
  from next_approval_first_pending [OF c] c show ?thesis by blast
qed

text \<open>
  C8 as the specification words it fails: the one approval of the sample issue has the
  status Done, which is not in the done statuses of approvals, and still it is not the
  next approval: the card shows \<open>None\<close>.
\<close>

theorem next_approval_done_counterexample:
  "\<exists>c. IssueCard sample_issue_freeze = Some c
      \<and> approvalTasks c = [sample_approval_done]
      \<and> status_lower sample_approval_done \<notin> set approvalDoneStatuses
      \<and> nextApproval c = JNull
      \<and> approvalsEl c = Some None"
proof -
  have "case IssueCard sample_issue_freeze of
          None \<Rightarrow> False
        | Some c \<Rightarrow> approvalTasks c = [sample_approval_done] \<and> nextApproval c = JNull
            \<and> approvalsEl c = Some None"
    by code_simp
  moreover have "status_lower sample_approval_done \<notin> set approvalDoneStatuses"
    by code_simp
  ultimately show ?thesis by (auto split: option.splits)
qed

subsection \<open>The fallback chain of the fetcher\<close>

lemma fetch_loop_first:
  "\<forall>s\<in>set pre. isl (attempt w s) \<Longrightarrow> attempt w src = Inr d \<Longrightarrow>
   fetch_loop w (pre @ src # post) lastErr = Inr d"
proof (induction pre arbitrary: lastErr)
  case Nil
  then show ?case by simp
next
  case (Cons s pre)
  then obtain err where "attempt w s = Inl err" by (cases "attempt w s") auto
  with Cons show ?case by simp
qed

lemma fetch_loop_all_fail:
  "\<forall>s\<in>set srcs. isl (attempt w s) \<Longrightarrow> srcs \<noteq> [] \<Longrightarrow> attempt w (last srcs) = Inl err \<Longrightarrow>
   fetch_loop w srcs lastErr = Inl err"
proof (induction srcs arbitrary: lastErr)
  case Nil
  then show ?case by simp
next
  case (Cons s srcs)
  then obtain e where e: "attempt w s = Inl e" by (cases "attempt w s") auto
  show ?case
  proof (cases "srcs = []")
    case True
    with Cons.prems e show ?thesis by simp
  next
    case False
    with Cons e show ?thesis by simp
  qed
qed

lemma sources_eq:
  "sources env = (if env = [] then [DEFAULT_SRC_LOCAL, DEFAULT_SRC_REMOTE]
                  else [env, DEFAULT_SRC_LOCAL, DEFAULT_SRC_REMOTE])"
  by (simp add: sources_def DEFAULT_SRC_LOCAL_def DEFAULT_SRC_REMOTE_def)

lemma attempt_fails_iff:
  "isl (attempt w s) \<longleftrightarrow>
     \<not> (\<exists>url resp body d. new_URL w s = Inr url \<and> fetch w url = Inr resp \<and> resp_ok resp
            \<and> resp_body resp = Inr body \<and> yamlLoad w body = Inr d)"
proof -
  have "isl v \<longleftrightarrow> \<not> (\<exists>d. v = Inr d)" for v :: "js_error + jv"
    by (cases v) auto
  then show ?thesis
    by (auto simp: attempt_def split: sum.splits)
qed

text \<open>
  C2, amended. The fetcher tries the non-empty sources in the order override, local
  path, remote address; it returns the document of the first source whose attempt
  succeeds (a response with a success status whose body parses), and when every attempt
  fails it throws the error of the last attempt. In particular, when the first source
  throws, the second answers with a status that is not a success (outside 200 to 299)
  and the third serves valid YAML, it returns the document of the third.
\<close>

theorem fetchYaml_first_success:
  "sources env = (if env = [] then [DEFAULT_SRC_LOCAL, DEFAULT_SRC_REMOTE]
                  else [env, DEFAULT_SRC_LOCAL, DEFAULT_SRC_REMOTE])
   \<and> (\<forall>s. isl (attempt w s) \<longleftrightarrow>
          \<not> (\<exists>url resp body d. new_URL w s = Inr url \<and> fetch w url = Inr resp \<and> resp_ok resp
                 \<and> resp_body resp = Inr body \<and> yamlLoad w body = Inr d))
   \<and> (\<forall>pre src post url resp body d.
         sources env = pre @ src # post \<and> (\<forall>s\<in>set pre. isl (attempt w s))
         \<and> new_URL w src = Inr url \<and> fetch w url = Inr resp \<and> resp_ok resp
         \<and> resp_body resp = Inr body \<and> yamlLoad w body = Inr d
         \<longrightarrow> fetchYaml w env = Inr d)
   \<and> (\<forall>err. (\<forall>s\<in>set (sources env). isl (attempt w s)) \<and> attempt w (last (sources env)) = Inl err
         \<longrightarrow> fetchYaml w env = Inl err)
   \<and> (env \<noteq> [] \<and> new_URL w env = Inr u1 \<and> fetch w u1 = Inl e1
        \<and> new_URL w DEFAULT_SRC_LOCAL = Inr u2 \<and> fetch w u2 = Inr r2 \<and> \<not> resp_ok r2
        \<and> new_URL w DEFAULT_SRC_REMOTE = Inr u3 \<and> fetch w u3 = Inr r3 \<and> resp_ok r3
        \<and> resp_body r3 = Inr b3 \<and> yamlLoad w b3 = Inr d3
      \<longrightarrow> fetchYaml w env = Inr d3)"
proof (intro conjI allI impI)
  show "sources env = (if env = [] then [DEFAULT_SRC_LOCAL, DEFAULT_SRC_REMOTE]
                  else [env, DEFAULT_SRC_LOCAL, DEFAULT_SRC_REMOTE])"
    by (rule sources_eq)
next
  fix s
  show "isl (attempt w s) \<longleftrightarrow>
          \<not> (\<exists>url resp body d. new_URL w s = Inr url \<and> fetch w url = Inr resp \<and> resp_ok resp
                 \<and> resp_body resp = Inr body \<and> yamlLoad w body = Inr d)"
    by (rule attempt_fails_iff)
next
  fix pre src post url resp body d
  assume a: "sources env = pre @ src # post \<and> (\<forall>s\<in>set pre. isl (attempt w s))
         \<and> new_URL w src = Inr url \<and> fetch w url = Inr resp \<and> resp_ok resp
         \<and> resp_body resp = Inr body \<and> yamlLoad w body = Inr d"
  then have "attempt w src = Inr d" by (simp add: attempt_def)
  with a show "fetchYaml w env = Inr d"
    by (simp add: fetchYaml_def fetch_loop_first)
next
  fix err
  assume a: "(\<forall>s\<in>set (sources env). isl (attempt w s)) \<and> attempt w (last (sources env)) = Inl err"
  have "sources env \<noteq> []" by (simp add: sources_eq)
  with a show "fetchYaml w env = Inl err"
    by (simp add: fetchYaml_def fetch_loop_all_fail)
next
  assume a: "env \<noteq> [] \<and> new_URL w env = Inr u1 \<and> fetch w u1 = Inl e1
        \<and> new_URL w DEFAULT_SRC_LOCAL = Inr u2 \<and> fetch w u2 = Inr r2 \<and> \<not> resp_ok r2
        \<and> new_URL w DEFAULT_SRC_REMOTE = Inr u3 \<and> fetch w u3 = Inr r3 \<and> resp_ok r3
        \<and> resp_body r3 = Inr b3 \<and> yamlLoad w b3 = Inr d3"
  then have 1: "attempt w env = Inl e1"
    and 2: "attempt w DEFAULT_SRC_LOCAL = Inl (Error (''HTTP '' @ show_nat (resp_status r2)))"
    and 3: "attempt w DEFAULT_SRC_REMOTE = Inr d3"
    by (simp_all add: attempt_def)
  from a have "sources env = [env, DEFAULT_SRC_LOCAL, DEFAULT_SRC_REMOTE]"
    by (simp add: sources_eq)
  with 1 2 3 show "fetchYaml w env = Inr d3"
    by (simp add: fetchYaml_def)
qed

lemma world_down_attempt: "attempt world_down src = Inl (Error ''Failed to fetch'')"
  by (simp add: attempt_def world_down_def world_up_def)

theorem fetchYaml_first_success_witness:
  "fetch world_fallback ''https://example.org/rollup.yaml?_=1'' = Inl (Error ''Failed to fetch'')
   \<and> attempt world_fallback DEFAULT_SRC_LOCAL = Inl (Error ''HTTP 404'')
   \<and> fetchYaml world_fallback ''https://example.org/rollup.yaml'' = Inr sample_snapshot
   \<and> list_all (\<lambda>s. isl (attempt world_down s)) (sources [])
   \<and> fetchYaml world_down [] = Inl (Error ''Failed to fetch'')"
proof -
  let ?env = "''https://example.org/rollup.yaml''"
  have f1: "fetch world_fallback (?env @ ''?_=1'') = Inl (Error ''Failed to fetch'')"
    by (simp add: world_fallback_def world_up_def)
  have u: "new_URL world_fallback src = Inr (src @ ''?_=1'')" for src
    by (simp add: world_fallback_def world_up_def)
  have f2: "fetch world_fallback (DEFAULT_SRC_LOCAL @ ''?_=1'')
      = Inr \<lparr>resp_status = 404, resp_body = Inr ''Not Found''\<rparr>"
    by (simp add: world_fallback_def world_up_def DEFAULT_SRC_LOCAL_def)
  have f3: "fetch world_fallback (DEFAULT_SRC_REMOTE @ ''?_=1'')
      = Inr \<lparr>resp_status = 200, resp_body = Inr ''snapshot''\<rparr>"
    by (simp add: world_fallback_def world_up_def DEFAULT_SRC_LOCAL_def DEFAULT_SRC_REMOTE_def)
  have y: "yamlLoad world_fallback ''snapshot'' = Inr sample_snapshot"
    by (simp add: world_fallback_def world_up_def)
  have a2: "attempt world_fallback DEFAULT_SRC_LOCAL = Inl (Error ''HTTP 404'')"
    by (simp add: attempt_def u f2 resp_ok_def)
  from fetchYaml_first_success [of ?env world_fallback "?env @ ''?_=1''" "Error ''Failed to fetch''"
      "DEFAULT_SRC_LOCAL @ ''?_=1''" "\<lparr>resp_status = 404, resp_body = Inr ''Not Found''\<rparr>"
      "DEFAULT_SRC_REMOTE @ ''?_=1''" "\<lparr>resp_status = 200, resp_body = Inr ''snapshot''\<rparr>"
      "''snapshot''" sample_snapshot]
  have third: "fetchYaml world_fallback ?env = Inr sample_snapshot"
    using f1 u f2 f3 y by (simp add: resp_ok_def)
  have all: "\<forall>s\<in>set (sources []). isl (attempt world_down s)"
    by (simp add: world_down_attempt)
  from fetchYaml_first_success [of "[]" world_down] all
  have down: "fetchYaml world_down [] = Inl (Error ''Failed to fetch'')"
    by (simp add: world_down_attempt)
  from f1 a2 third all down show ?thesis
    by (simp add: list_all_iff)
qed

text \<open>
  C2 as the specification words it fails on a status that is not 200 and still a
  success: the first source throws, the second answers 203 with a document that parses,
  the third serves valid YAML, and the fetcher returns the document of the second.
\<close>

theorem fetchYaml_non200_counterexample:
  "attempt world_mirror ''https://example.org/rollup.yaml'' = Inl (Error ''Failed to fetch'')
   \<and> fetch world_mirror (DEFAULT_SRC_LOCAL @ ''?_=1'')
       = Inr \<lparr>resp_status = 203, resp_body = Inr ''mirror''\<rparr>
   \<and> (203::nat) \<noteq> 200
   \<and> attempt world_mirror DEFAULT_SRC_REMOTE = Inr sample_snapshot
   \<and> fetchYaml world_mirror ''https://example.org/rollup.yaml'' = Inr sample_mirror
   \<and> sample_mirror \<noteq> sample_snapshot"
proof -
  let ?env = "''https://example.org/rollup.yaml''"
  have u: "new_URL world_mirror src = Inr (src @ ''?_=1'')" for src
    by (simp add: world_mirror_def world_up_def)
  have f1: "fetch world_mirror ''https://example.org/rollup.yaml?_=1''
      = Inl (Error ''Failed to fetch'')"
    by (simp add: world_mirror_def world_up_def)
  have f2: "fetch world_mirror (DEFAULT_SRC_LOCAL @ ''?_=1'')
      = Inr \<lparr>resp_status = 203, resp_body = Inr ''mirror''\<rparr>"
    by (simp add: world_mirror_def world_up_def DEFAULT_SRC_LOCAL_def)
  have f3: "fetch world_mirror (DEFAULT_SRC_REMOTE @ ''?_=1'')
      = Inr \<lparr>resp_status = 200, resp_body = Inr ''snapshot''\<rparr>"
    by (simp add: world_mirror_def world_up_def DEFAULT_SRC_LOCAL_def DEFAULT_SRC_REMOTE_def)
  have y: "yamlLoad world_mirror ''snapshot'' = Inr sample_snapshot"
    "yamlLoad world_mirror ''mirror'' = Inr sample_mirror"
    by (simp_all add: world_mirror_def world_up_def)
  have a1: "attempt world_mirror ?env = Inl (Error ''Failed to fetch'')"
    by (simp add: attempt_def u f1)
  have a2: "attempt world_mirror DEFAULT_SRC_LOCAL = Inr sample_mirror"
    by (simp add: attempt_def u f2 y resp_ok_def)
  have a3: "attempt world_mirror DEFAULT_SRC_REMOTE = Inr sample_snapshot"
    by (simp add: attempt_def u f3 y resp_ok_def)
  have "sources ?env = [?env, DEFAULT_SRC_LOCAL, DEFAULT_SRC_REMOTE]"
    by (simp add: sources_eq)
  then have r: "fetchYaml world_mirror ?env = Inr sample_mirror"
    by (simp add: fetchYaml_def a1 a2)
  have d: "sample_mirror \<noteq> sample_snapshot"
    by (simp add: sample_mirror_def sample_snapshot_def)
  from a1 f2 a3 r d show ?thesis by simp
qed

subsection \<open>Refresh cycles\<close>

lemma refresh_outcome_truthy: "refresh_outcome w env = Inr d \<Longrightarrow> truthy d"
  by (auto simp: refresh_outcome_def Let_def split: sum.splits if_splits)

text \<open>So the data on display is \<open>null\<close> or a mapping.\<close>

lemma refresh_outcome_mapping: "refresh_outcome w env = Inr d \<Longrightarrow> \<exists>kvs. d = JObj kvs"
  by (auto simp: refresh_outcome_def Let_def valid_is_mapping split: sum.splits if_splits)

lemma loadAndRender_inv:
  assumes "cycle_inv s g"
  shows "cycle_inv (loadAndRender w env now s)
           (case refresh_outcome w env of Inr d \<Rightarrow> Some d | Inl err \<Rightarrow> g)"
proof (cases "refresh_outcome w env")
  case (Inl err)
  with assms show ?thesis
    by (auto simp: loadAndRender_def cycle_inv_def Let_def split: option.splits)
next
  case (Inr d)
  with refresh_outcome_truthy [OF Inr] show ?thesis
    by (simp add: loadAndRender_def cycle_inv_def Let_def)
qed

lemma run_inv: "cycle_inv (run env cs initial_state) (last_good env cs)"
proof (induction cs rule: rev_induct)
  case Nil
  show ?case by (simp add: run_def last_good_def cycle_inv_def initial_state_def)
next
  case (snoc c cs)
  have r: "run env (cs @ [c]) initial_state
      = loadAndRender (cy_world c) env (cy_now c) (run env cs initial_state)"
    by (simp add: run_def)
  have g: "last_good env (cs @ [c])
      = (case refresh_outcome (cy_world c) env of Inr d \<Rightarrow> Some d | Inl err \<Rightarrow> last_good env cs)"
    by (cases "refresh_outcome (cy_world c) env") (simp_all add: last_good_def)
  from loadAndRender_inv [OF snoc, of "cy_world c" env "cy_now c"]
  show ?case by (simp only: r g)
qed

text \<open>
  C3. A refresh cycle that fails, whether in the fetch, the parse or the validation,
  after a run of cycles from the initial state: if a cycle of the run succeeded, the
  data on display is the document of the last one that did, the error line names the
  cause, and the header shows no failure; if none succeeded, there is no data, the error
  line names the cause, and the header says that loading failed.
\<close>

theorem failed_refresh_keeps_last_good:
  assumes "refresh_outcome (cy_world c) env = Inl err"
  shows "case last_good env cs of
           Some d \<Rightarrow>
             st_data (run env (cs @ [c]) initial_state) = d
             \<and> st_error (run env (cs @ [c]) initial_state)
                 = ''Error loading YAML. Using last successful data. ('' @ message err @ '')''
             \<and> st_metaBase (run env (cs @ [c]) initial_state) = []
         | None \<Rightarrow>
             st_data (run env (cs @ [c]) initial_state) = JNull
             \<and> st_error (run env (cs @ [c]) initial_state) = ''Error loading YAML: '' @ message err
             \<and> st_metaBase (run env (cs @ [c]) initial_state) = ''Failed to load data.''"
proof -
  let ?s = "run env cs initial_state"
  have step: "run env (cs @ [c]) initial_state = loadAndRender (cy_world c) env (cy_now c) ?s"
    by (simp add: run_def)
  from run_inv [of env cs] show ?thesis
    by (auto simp: step loadAndRender_def assms cycle_inv_def Let_def split: option.splits)
qed

lemma world_down_fails: "refresh_outcome world_down [] = Inl (Error ''Failed to fetch'')"
  by (simp add: refresh_outcome_def fetchYaml_def sources_def attempt_def world_down_def
      world_up_def DEFAULT_SRC_LOCAL_def DEFAULT_SRC_REMOTE_def)

lemma sample_snapshot_valid: "ok (validateYamlShape sample_snapshot)"
  by (simp add: validateYamlShape_def sample_snapshot_def get_prop_opt_def nullish_def Let_def)

lemma world_up_succeeds: "refresh_outcome world_up [] = Inr sample_snapshot"
proof -
  have "fetchYaml world_up [] = Inr sample_snapshot"
    by (simp add: fetchYaml_def sources_def attempt_def world_up_def resp_ok_def
        DEFAULT_SRC_LOCAL_def DEFAULT_SRC_REMOTE_def)
  moreover have "truthy sample_snapshot" by (simp add: sample_snapshot_def)
  ultimately show ?thesis
    by (simp add: refresh_outcome_def sample_snapshot_valid)
qed

theorem failed_refresh_keeps_last_good_witness:
  "refresh_outcome world_down [] = Inl (Error ''Failed to fetch'')
   \<and> last_good [] [\<lparr>cy_world = world_up, cy_now = 5\<rparr>] = Some sample_snapshot
   \<and> st_data (run [] ([\<lparr>cy_world = world_up, cy_now = 5\<rparr>] @ [\<lparr>cy_world = world_down, cy_now = 305\<rparr>])
         initial_state) = sample_snapshot
   \<and> st_error (run [] ([\<lparr>cy_world = world_up, cy_now = 5\<rparr>] @ [\<lparr>cy_world = world_down, cy_now = 305\<rparr>])
         initial_state) = ''Error loading YAML. Using last successful data. (Failed to fetch)''
   \<and> st_data (run [] ([] @ [\<lparr>cy_world = world_down, cy_now = 305\<rparr>]) initial_state) = JNull
   \<and> st_metaBase (run [] ([] @ [\<lparr>cy_world = world_down, cy_now = 305\<rparr>]) initial_state)
       = ''Failed to load data.''"
proof -
  have f: "refresh_outcome (cy_world \<lparr>cy_world = world_down, cy_now = 305\<rparr>) []
      = Inl (Error ''Failed to fetch'')"
    by (simp add: world_down_fails)
  have g: "last_good [] [\<lparr>cy_world = world_up, cy_now = 5\<rparr>] = Some sample_snapshot"
    by (simp add: last_good_def world_up_succeeds)
  have n: "last_good [] [] = None"
    by (simp add: last_good_def)
  from failed_refresh_keeps_last_good [OF f, of "[\<lparr>cy_world = world_up, cy_now = 5\<rparr>]"]
    failed_refresh_keeps_last_good [OF f, of "[]"]
  show ?thesis
    by (simp add: g n world_down_fails)
qed

subsection \<open>The filter engine writes to new objects only\<close>

lemma set_props_obj:
  "st ! a = JObj kvs \<Longrightarrow> set_props a src st = st[a := JObj (object_assign kvs src)]"
  by (simp add: set_props_def)

lemma phase_loop_in_sim:
  assumes "np < length st" and "st ! np = JObj acc"
  shows "case phase_loop_in phases f ps np st of
           (st', returned) \<Rightarrow>
             length st' = length st \<and> take np st' = take np st
             \<and> (if returned then \<exists>acc'. phase_loop phases f ps acc = Some acc' \<and> st' ! np = JObj acc'
                 else phase_loop phases f ps acc = None)"
  using assms
proof (induction ps arbitrary: st acc)
  case Nil
  then show ?case by simp
next
  case (Cons p ps)
  show ?case
  proof (cases "as_array (js_or (get_prop_opt phases p) (JArr []))")
    case None
    then show ?thesis by simp
  next
    case (Some allIssues)
    show ?thesis
    proof (cases "array_filter f allIssues")
      case None
      with Some show ?thesis by simp
    next
      case kept: (Some kept)
      let ?acc = "AList.update p (JArr kept) acc"
      let ?st = "st[np := JObj ?acc]"
      have sp: "set_props np [(p, JArr kept)] st = ?st"
        using Cons.prems(2) by (simp add: set_props_obj object_assign_def)
      have "np < length ?st" and "?st ! np = JObj ?acc"
        using Cons.prems(1) by simp_all
      from Cons.IH [OF this]
      have "case phase_loop_in phases f ps np ?st of
           (st', returned) \<Rightarrow>
             length st' = length ?st \<and> take np st' = take np ?st
             \<and> (if returned then \<exists>acc'. phase_loop phases f ps ?acc = Some acc' \<and> st' ! np = JObj acc'
                 else phase_loop phases f ps ?acc = None)" .
      then show ?thesis
        using Some kept by (simp add: sp split: prod.splits)
    qed
  qed
qed

lemma filteredData_obj:
  "filteredData (JObj kvs) sq i t =
     map_option (\<lambda>np. JObj (object_assign (object_assign [] (AList.clearjunk kvs)) [(''phases'', JObj np)]))
       (phase_loop (js_or (get_prop_opt (JObj kvs) ''phases'') (JObj []))
          (issue_shown (toLowerCase (trim sq)) i t) PHASE_ORDER [])"
  by (simp add: filteredData_def Let_def map_option_case split: option.splits)

text \<open>
  C10. The filter engine changes only the \<open>phases\<close> field. Run on a store that holds
  the snapshot, it leaves every object of the store as it was, so the input snapshot is
  not mutated; the filtered snapshot is a new object whose value is what
  \<open>filteredData\<close> computes, and under every key other than \<open>phases\<close> it has what
  the input has (\<open>schema_version\<close>, \<open>generated_at\<close>, \<open>counts\<close> and any unknown
  key; a key the input lacks is lacking). When the engine throws, the store's objects
  are as they were, too.
\<close>

theorem filter_frame:
  assumes ad: "ad < length st" and obj: "st ! ad = JObj kvs"
  shows "case filteredData_in st (Some ad) sq i t of
           (st', out) \<Rightarrow>
             take (length st) st' = st
             \<and> (case out of
                  None \<Rightarrow> filteredData (JObj kvs) sq i t = None
                | Some None \<Rightarrow> False
                | Some (Some r) \<Rightarrow>
                    length st \<le> r \<and> r < length st'
                    \<and> filteredData (JObj kvs) sq i t = Some (st' ! r)
                    \<and> (\<exists>kvs'. st' ! r = JObj kvs'
                          \<and> (\<forall>k. k \<noteq> ''phases'' \<longrightarrow> map_of kvs' k = map_of kvs k)))"
proof -
  let ?n = "length st"
  let ?ph = "js_or (get_prop_opt (JObj kvs) ''phases'') (JObj [])"
  let ?f = "issue_shown (toLowerCase (trim sq)) i t"
  let ?st1 = "st @ [JObj []]"
  obtain st2 returned where loop: "phase_loop_in ?ph ?f PHASE_ORDER ?n ?st1 = (st2, returned)"
    by (cases "phase_loop_in ?ph ?f PHASE_ORDER ?n ?st1")
  have "?n < length ?st1" and "?st1 ! ?n = JObj []" by simp_all
  from phase_loop_in_sim [OF this, of ?ph ?f PHASE_ORDER] loop
  have len2: "length st2 = Suc ?n" and old2: "take ?n st2 = st"
    and res: "if returned then \<exists>acc'. phase_loop ?ph ?f PHASE_ORDER [] = Some acc' \<and> st2 ! ?n = JObj acc'
              else phase_loop ?ph ?f PHASE_ORDER [] = None"
    by simp_all
  have run: "filteredData_in st (Some ad) sq i t =
      (if \<not> returned then (st2, None)
       else let (target, st3) = alloc (JObj []) st2;
                (lit, st4) = alloc (JObj [(''phases'', st3 ! ?n)]) st3;
                st5 = set_props target (own_props (st4 ! ad)) st4;
                st6 = set_props target (own_props (st5 ! lit)) st5
            in (st6, Some (Some target)))"
    using obj loop by (simp add: filteredData_in_def alloc_def Let_def)
  show ?thesis
  proof (cases returned)
    case False
    with res have "phase_loop ?ph ?f PHASE_ORDER [] = None" by simp
    then have "filteredData (JObj kvs) sq i t = None" by (simp add: filteredData_obj)
    with False old2 show ?thesis by (simp add: run)
  next
    case True
    with res obtain np where np: "phase_loop ?ph ?f PHASE_ORDER [] = Some np" and at: "st2 ! ?n = JObj np"
      by auto
    let ?st3 = "st2 @ [JObj []]"
    let ?st4 = "?st3 @ [JObj [(''phases'', JObj np)]]"
    let ?copy = "object_assign [] (AList.clearjunk kvs)"
    let ?st5 = "?st4[Suc ?n := JObj ?copy]"
    let ?res = "object_assign ?copy [(''phases'', JObj np)]"
    let ?st6 = "?st5[Suc ?n := JObj ?res]"
    have ad2: "st2 ! ad = JObj kvs"
      using ad obj old2 by (metis nth_take)
    have n3: "?st3 ! ?n = JObj np" using at len2 by (simp add: nth_append)
    have a4: "?st4 ! ad = JObj kvs" using ad ad2 len2 by (simp add: nth_append)
    have t4: "?st4 ! Suc ?n = JObj []" using len2 by (simp add: nth_append)
    have s5: "set_props (Suc ?n) (own_props (?st4 ! ad)) ?st4 = ?st5"
      by (simp only: a4 own_props.simps set_props_obj [OF t4])
    have l5: "?st5 ! Suc (Suc ?n) = JObj [(''phases'', JObj np)]"
      using len2 by (simp add: nth_append)
    have t5: "?st5 ! Suc ?n = JObj ?copy" using len2 by simp
    have s6: "set_props (Suc ?n) (own_props (?st5 ! Suc (Suc ?n))) ?st5 = ?st6"
      by (simp only: l5 set_props_obj [OF t5]) simp
    have out: "filteredData_in st (Some ad) sq i t = (?st6, Some (Some (Suc ?n)))"
      using True len2 n3 s5 s6 by (simp add: run alloc_def Let_def)
    have val: "?st6 ! Suc ?n = JObj ?res" using len2 by simp
    have old: "take ?n ?st6 = st" using old2 len2 by simp
    have pure: "filteredData (JObj kvs) sq i t = Some (JObj ?res)"
      by (simp add: filteredData_obj np)
    have copy: "?copy = AList.clearjunk kvs"
      by (simp add: object_assign_fresh)
    have frame: "\<forall>k. k \<noteq> ''phases'' \<longrightarrow> map_of ?res k = map_of kvs k"
      by (simp add: copy object_assign_single update_conv' map_of_clearjunk)
    from out val old pure frame len2 show ?thesis by simp
  qed
qed

theorem filter_frame_witness:
  "0 < length [sample_snapshot, JNum 5] \<and> (\<exists>kvs. [sample_snapshot, JNum 5] ! 0 = JObj kvs)
   \<and> take (length [sample_snapshot, JNum 5])
         (fst (filteredData_in [sample_snapshot, JNum 5] (Some 0) ''uart'' None None))
       = [sample_snapshot, JNum 5]
   \<and> (\<exists>r. snd (filteredData_in [sample_snapshot, JNum 5] (Some 0) ''uart'' None None) = Some (Some r)
         \<and> length [sample_snapshot, JNum 5] \<le> r)"
proof -
  let ?S = "[sample_snapshot, JNum 5]"
  have 1: "0 < length ?S" by simp
  obtain kvs where k: "sample_snapshot = JObj kvs"
    by (simp add: sample_snapshot_def)
  then have 2: "?S ! 0 = JObj kvs" by simp
  obtain st' out where e: "filteredData_in ?S (Some 0) ''uart'' None None = (st', out)"
    by (cases "filteredData_in ?S (Some 0) ''uart'' None None")
  from filter_frame [OF 1 2, of "''uart''" None None] e
  have old: "take (length ?S) st' = ?S"
    and res: "case out of
                None \<Rightarrow> filteredData (JObj kvs) ''uart'' None None = None
              | Some None \<Rightarrow> False
              | Some (Some r) \<Rightarrow> length ?S \<le> r"
    by (auto split: option.splits)
  from res sample_uart_returns k obtain r where "out = Some (Some r)" and "length ?S \<le> r"
    by (auto split: option.splits)
  with old e have "take (length ?S) (fst (filteredData_in ?S (Some 0) ''uart'' None None)) = ?S"
    and "\<exists>r. snd (filteredData_in ?S (Some 0) ''uart'' None None) = Some (Some r) \<and> length ?S \<le> r"
    by simp_all
  with 1 2 show ?thesis by blast
qed

end
